theory Spec2Isabelle
  imports Main "HOL-Library.Word" "HOL-Library.List_Lexorder"
begin

unbundle bit_operations_syntax

section \<open>JavaScript strings\<close>

text \<open>
  A JavaScript string is a sequence of UTF-16 code units.  It is modelled as a list of
  natural numbers, so that the logic symbols the lexer accepts and the printer emits
  (for example U+2227) are single elements, as they are for \<^verbatim>\<open>input[position]\<close>
  and for \<^verbatim>\<open>value.length\<close>.  \<open>js\<close> embeds an ASCII literal.
\<close>

type_synonym jsstring = "nat list"

definition js :: "string \<Rightarrow> jsstring" where
  "js s = map of_char s"

section \<open>The TypeScript engine: syntax trees and the evaluator\<close>

text \<open>
  \<^verbatim>\<open>ASTNode\<close> of the type declarations: a tagged union of variables, literals, the
  unary \<^verbatim>\<open>NOT\<close> and six binary operators; every node carries an \<^verbatim>\<open>id\<close> string.
\<close>

datatype ASTNodeType = N_AND | N_OR | N_XOR | N_NAND | N_NOR | N_XNOR

datatype ASTNode =
    ASTVariable jsstring jsstring
  | ASTLiteral bool jsstring
  | ASTUnaryOp ASTNode jsstring
  | ASTBinaryOp ASTNodeType ASTNode ASTNode jsstring

text \<open>
  The errors the engine raises.  A \<^verbatim>\<open>ParseError\<close> object carries a message, a position
  and a length; the message templates of the source are the constructors of
  \<open>message\<close>, with the interpolated text as argument.  The other two are the
  \<^verbatim>\<open>Error\<close> objects thrown by \<^verbatim>\<open>evaluate\<close> and \<^verbatim>\<open>generateTruthTable\<close>.
\<close>

datatype message =
    ExpressionCannotBeEmpty
  | UnexpectedToken jsstring
  | MissingClosingParenthesis
  | UnexpectedEndOfExpression
  | ExpectedVariableOrValue jsstring
  | UnexpectedCharacter jsstring

datatype error =
    ParseError message nat nat
  | UndefinedVariable jsstring
  | TooManyVariables nat

text \<open>
  \<^verbatim>\<open>VariableBindings\<close> is \<^verbatim>\<open>Record<string, boolean>\<close>: a plain object.  The map holds its own
  properties.  Reading \<^verbatim>\<open>binding[key]\<close> when there is no own property \<open>key\<close> continues in
  \<^verbatim>\<open>Object.prototype\<close>, whose members (\<^verbatim>\<open>constructor\<close>, \<^verbatim>\<open>toString\<close>, \<^verbatim>\<open>__proto__\<close>, ...) are
  objects and functions, none of them \<^verbatim>\<open>undefined\<close>; \<open>PrototypeVal key\<close> stands for the
  member called \<open>key\<close>, and two members are the same object only if they have the same name.
  Writing \<^verbatim>\<open>binding[key] = v\<close> creates or updates an own property, except for the key
  \<^verbatim>\<open>__proto__\<close>: this is an accessor of \<^verbatim>\<open>Object.prototype\<close> whose setter ignores a boolean,
  so that no property is created.
\<close>

type_synonym VariableBindings = "jsstring \<rightharpoonup> bool"

datatype jsval = BoolVal bool | PrototypeVal jsstring

definition objectPrototype :: "jsstring list" where
  "objectPrototype =
     [js ''constructor'', js ''__defineGetter__'', js ''__defineSetter__'',
      js ''hasOwnProperty'', js ''__lookupGetter__'', js ''__lookupSetter__'',
      js ''isPrototypeOf'', js ''propertyIsEnumerable'', js ''toString'', js ''valueOf'',
      js ''__proto__'', js ''toLocaleString'']"

definition getProperty :: "VariableBindings \<Rightarrow> jsstring \<Rightarrow> jsval option" where
  "getProperty binding key =
     (case binding key of
        Some b \<Rightarrow> Some (BoolVal b)
      | None \<Rightarrow> if key \<in> set objectPrototype then Some (PrototypeVal key) else None)"

definition setProperty :: "VariableBindings \<Rightarrow> jsstring \<Rightarrow> bool \<Rightarrow> VariableBindings" where
  "setProperty binding key v =
     (if key = js ''__proto__'' \<and> binding key = None then binding else binding(key \<mapsto> v))"

text \<open>The conversion to a boolean that \<^verbatim>\<open>!\<close>, \<^verbatim>\<open>&&\<close>, \<^verbatim>\<open>||\<close> and \<^verbatim>\<open>if\<close> apply: an object is true.\<close>

definition toBoolean :: "jsval \<Rightarrow> bool" where
  "toBoolean v = (case v of BoolVal b \<Rightarrow> b | PrototypeVal _ \<Rightarrow> True)"

text \<open>
  \<^verbatim>\<open>evaluate\<close>: a variable returns what the lookup finds and throws if that is
  \<^verbatim>\<open>undefined\<close>; \<^verbatim>\<open>&&\<close> and \<^verbatim>\<open>||\<close> return one of their operands and do not evaluate the
  right one when the left one decides, so an error of the right operand is then not
  raised; \<^verbatim>\<open>!==\<close> and \<^verbatim>\<open>===\<close> evaluate both sides and compare them without conversion.
\<close>

fun evaluate :: "ASTNode \<Rightarrow> VariableBindings \<Rightarrow> error + jsval" where
  "evaluate (ASTVariable name _) bindings =
     (case getProperty bindings name of None \<Rightarrow> Inl (UndefinedVariable name) | Some v \<Rightarrow> Inr v)"
| "evaluate (ASTLiteral v _) bindings = Inr (BoolVal v)"
| "evaluate (ASTUnaryOp operand _) bindings =
     (case evaluate operand bindings of Inl e \<Rightarrow> Inl e | Inr a \<Rightarrow> Inr (BoolVal (\<not> toBoolean a)))"
| "evaluate (ASTBinaryOp N_AND l r _) bindings =
     (case evaluate l bindings of Inl e \<Rightarrow> Inl e
      | Inr a \<Rightarrow> if toBoolean a then evaluate r bindings else Inr a)"
| "evaluate (ASTBinaryOp N_OR l r _) bindings =
     (case evaluate l bindings of Inl e \<Rightarrow> Inl e
      | Inr a \<Rightarrow> if toBoolean a then Inr a else evaluate r bindings)"
| "evaluate (ASTBinaryOp N_XOR l r _) bindings =
     (case evaluate l bindings of Inl e \<Rightarrow> Inl e
      | Inr a \<Rightarrow> (case evaluate r bindings of Inl e \<Rightarrow> Inl e | Inr b \<Rightarrow> Inr (BoolVal (a \<noteq> b))))"
| "evaluate (ASTBinaryOp N_NAND l r _) bindings =
     (case evaluate l bindings of Inl e \<Rightarrow> Inl e
      | Inr a \<Rightarrow> if toBoolean a
               then (case evaluate r bindings of Inl e \<Rightarrow> Inl e
                     | Inr b \<Rightarrow> Inr (BoolVal (\<not> toBoolean b)))
               else Inr (BoolVal True))"
| "evaluate (ASTBinaryOp N_NOR l r _) bindings =
     (case evaluate l bindings of Inl e \<Rightarrow> Inl e
      | Inr a \<Rightarrow> if toBoolean a then Inr (BoolVal False)
               else (case evaluate r bindings of Inl e \<Rightarrow> Inl e
                     | Inr b \<Rightarrow> Inr (BoolVal (\<not> toBoolean b))))"
| "evaluate (ASTBinaryOp N_XNOR l r _) bindings =
     (case evaluate l bindings of Inl e \<Rightarrow> Inl e
      | Inr a \<Rightarrow> (case evaluate r bindings of Inl e \<Rightarrow> Inl e | Inr b \<Rightarrow> Inr (BoolVal (a = b))))"

text \<open>The variable names that occur in a tree (\<^verbatim>\<open>extractVariables\<close>, before sorting).\<close>

fun node_variables :: "ASTNode \<Rightarrow> jsstring set" where
  "node_variables (ASTVariable name _) = {name}"
| "node_variables (ASTLiteral _ _) = {}"
| "node_variables (ASTUnaryOp operand _) = node_variables operand"
| "node_variables (ASTBinaryOp _ l r _) = node_variables l \<union> node_variables r"

text \<open>
  \<^verbatim>\<open>generateCombinations\<close>: row \<open>i\<close> binds \<^verbatim>\<open>variables[j]\<close> to
  \<^verbatim>\<open>Boolean((i >> (n - 1 - j)) & 1)\<close>.  The shift works on the 32-bit value of \<open>i\<close> and
  uses the shift count modulo 32.  The binding starts as the empty object; a later
  assignment to the same name overwrites an earlier one.
\<close>

definition combination :: "jsstring list \<Rightarrow> nat \<Rightarrow> VariableBindings" where
  "combination variables i =
     (let n = length variables in
      fold (\<lambda>j binding.
              setProperty binding (variables ! j)
                (bit (word_of_nat i :: 32 word) ((n - 1 - j) mod 32)))
           [0..<n] Map.empty)"

definition generateCombinations :: "jsstring list \<Rightarrow> VariableBindings list" where
  "generateCombinations variables =
     (let n = length variables; count = 2 ^ n in
      map (combination variables) [0..<count])"

text \<open>
  \<^verbatim>\<open>getMintermNumber\<close>: \<^verbatim>\<open>minterm |= (1 << (variables.length - 1 - i))\<close> for every
  variable whose lookup converts to true; \<^verbatim>\<open>|=\<close> and \<^verbatim>\<open><<\<close> are 32-bit operations and the
  result is read as a signed 32-bit integer.
\<close>

definition getMintermNumber :: "VariableBindings \<Rightarrow> jsstring list \<Rightarrow> int" where
  "getMintermNumber binding variables =
     sint (fold (\<lambda>i minterm.
                   if (case getProperty binding (variables ! i) of
                         Some v \<Rightarrow> toBoolean v | None \<Rightarrow> False)
                   then minterm OR push_bit ((length variables - 1 - i) mod 32) 1
                   else minterm)
                [0..<length variables] (0 :: 32 word))"

text \<open>\<^verbatim>\<open>getMaxtermNumber\<close> returns what \<^verbatim>\<open>getMintermNumber\<close> returns.\<close>

definition getMaxtermNumber :: "VariableBindings \<Rightarrow> jsstring list \<Rightarrow> int" where
  "getMaxtermNumber binding variables = getMintermNumber binding variables"

section \<open>The TypeScript engine: the truth table generator\<close>

record TruthTableRow =
  inputs :: VariableBindings
  output_value :: jsval
  minterm :: int
  maxterm :: int

record TruthTable =
  variables :: "jsstring list"
  rows :: "TruthTableRow list"
  expression :: jsstring

definition MAX_VARIABLES :: nat where
  "MAX_VARIABLES = 8"

text \<open>The callback of \<^verbatim>\<open>combinations.map\<close>: one row, or the error of \<^verbatim>\<open>evaluate\<close>.\<close>

definition buildRow :: "ASTNode \<Rightarrow> jsstring list \<Rightarrow> VariableBindings \<Rightarrow> error + TruthTableRow" where
  "buildRow ast vars inp =
     (case evaluate ast inp of
        Inl e \<Rightarrow> Inl e
      | Inr out \<Rightarrow>
          (let m = getMintermNumber inp vars; numCombinations = 2 ^ length vars in
           Inr \<lparr>inputs = inp, output_value = out, minterm = m,
                maxterm = numCombinations - 1 - m\<rparr>))"

text \<open>\<^verbatim>\<open>Array.map\<close> with a callback that may throw: the first error ends the call.\<close>

fun mapE :: "('a \<Rightarrow> 'e + 'b) \<Rightarrow> 'a list \<Rightarrow> 'e + 'b list" where
  "mapE f [] = Inr []"
| "mapE f (x # xs) =
     (case f x of
        Inl e \<Rightarrow> Inl e
      | Inr y \<Rightarrow> (case mapE f xs of Inl e \<Rightarrow> Inl e | Inr ys \<Rightarrow> Inr (y # ys)))"

definition generateTruthTable :: "ASTNode \<Rightarrow> jsstring list \<Rightarrow> jsstring \<Rightarrow> error + TruthTable" where
  "generateTruthTable ast vars expr =
     (if length vars > MAX_VARIABLES then Inl (TooManyVariables (length vars))
      else
        (case mapE (buildRow ast vars) (generateCombinations vars) of
           Inl e \<Rightarrow> Inl e
         | Inr rs \<Rightarrow> Inr \<lparr>variables = vars, rows = rs, expression = expr\<rparr>))"

section \<open>The TypeScript engine: the lexer\<close>

text \<open>
  \<^verbatim>\<open>TokenType\<close> and \<^verbatim>\<open>Token\<close> of the type declarations; the fields of a token are
  its type, its normalised text, and the position and length of the matched input.
\<close>

datatype TokenType =
    T_VARIABLE | T_LITERAL | T_AND | T_OR | T_XOR | T_NAND | T_NOR | T_XNOR | T_NOT
  | T_LPAREN | T_RPAREN | T_EOF

record Token =
  tok_type :: TokenType
  tok_value :: jsstring
  tok_position :: nat
  tok_length :: nat


text \<open>
  The character classes of the regular expressions: \<^verbatim>\<open>\s\<close> (white space and line
  terminators), \<^verbatim>\<open>[0-9]\<close>, \<^verbatim>\<open>[a-zA-Z]\<close> and \<^verbatim>\<open>[a-zA-Z0-9_]\<close>.  \<^verbatim>\<open>toUpperCase\<close> and
  \<^verbatim>\<open>toLowerCase\<close> are applied by the lexer only to text matched by these classes, where
  they change the ASCII letters and nothing else.
\<close>

definition isWhitespace :: "nat \<Rightarrow> bool" where
  "isWhitespace c \<longleftrightarrow>
     c \<in> {9, 10, 11, 12, 13, 32, 160, 5760, 8232, 8233, 8239, 8287, 12288, 65279}
     \<or> (8192 \<le> c \<and> c \<le> 8202)"

definition isDigit :: "nat \<Rightarrow> bool" where
  "isDigit c \<longleftrightarrow> 48 \<le> c \<and> c \<le> 57"

definition isLetter :: "nat \<Rightarrow> bool" where
  "isLetter c \<longleftrightarrow> (65 \<le> c \<and> c \<le> 90) \<or> (97 \<le> c \<and> c \<le> 122)"

definition isWordChar :: "nat \<Rightarrow> bool" where
  "isWordChar c \<longleftrightarrow> isLetter c \<or> isDigit c \<or> c = 95"

definition toUpperCase :: "jsstring \<Rightarrow> jsstring" where
  "toUpperCase s = map (\<lambda>c. if 97 \<le> c \<and> c \<le> 122 then c - 32 else c) s"

definition toLowerCase :: "jsstring \<Rightarrow> jsstring" where
  "toLowerCase s = map (\<lambda>c. if 65 \<le> c \<and> c \<le> 90 then c + 32 else c) s"

text \<open>
  One matcher for each shape of pattern in \<^verbatim>\<open>TOKEN_PATTERNS\<close>; a matcher returns the length
  of \<^verbatim>\<open>match[0]\<close>.  \<open>notFollowedBy\<close> is a negative lookahead, and after a keyword (which
  ends in a word character) it is the word boundary \<^verbatim>\<open>\b\<close>.  A keyword is matched
  without regard to case (flag \<^verbatim>\<open>i\<close>).
\<close>

definition notFollowedBy :: "(nat \<Rightarrow> bool) \<Rightarrow> jsstring \<Rightarrow> bool" where
  "notFollowedBy cls rest = (case rest of [] \<Rightarrow> True | c # _ \<Rightarrow> \<not> cls c)"

definition matchWhitespace :: "jsstring \<Rightarrow> nat option" where
  "matchWhitespace r =
     (let k = length (takeWhile isWhitespace r) in if k = 0 then None else Some k)"

definition matchKeyword :: "jsstring \<Rightarrow> jsstring \<Rightarrow> nat option" where
  "matchKeyword kw r =
     (if length kw \<le> length r \<and> toUpperCase (take (length kw) r) = kw
         \<and> notFollowedBy isWordChar (drop (length kw) r)
      then Some (length kw) else None)"

definition matchBit :: "jsstring \<Rightarrow> nat option" where
  "matchBit r =
     (case r of
        [] \<Rightarrow> None
      | c # rest \<Rightarrow> if (c = 48 \<or> c = 49) \<and> notFollowedBy isWordChar rest then Some 1 else None)"

definition matchTrueFalse :: "jsstring \<Rightarrow> nat option" where
  "matchTrueFalse r =
     (case matchKeyword (js ''TRUE'') r of
        Some k \<Rightarrow> Some k
      | None \<Rightarrow> matchKeyword (js ''FALSE'') r)"

definition matchIdentifier :: "jsstring \<Rightarrow> nat option" where
  "matchIdentifier r =
     (case r of
        [] \<Rightarrow> None
      | c # rest \<Rightarrow> if isLetter c then Some (Suc (length (takeWhile isWordChar rest))) else None)"

definition matchOneOf :: "nat list \<Rightarrow> jsstring \<Rightarrow> nat option" where
  "matchOneOf cs r = (case r of [] \<Rightarrow> None | c # _ \<Rightarrow> if c \<in> set cs then Some 1 else None)"

definition matchDot :: "jsstring \<Rightarrow> nat option" where
  "matchDot r =
     (case r of
        [] \<Rightarrow> None
      | c # rest \<Rightarrow> if c = 46 \<and> notFollowedBy isDigit rest then Some 1 else None)"

text \<open>
  The table of patterns, in the order of the source; the code points above 127 are
  U+2227, U+2228, U+00AC, U+2295, U+2191, U+2193, U+2299 and U+2194.
\<close>

definition TOKEN_PATTERNS :: "((jsstring \<Rightarrow> nat option) \<times> TokenType option) list" where
  "TOKEN_PATTERNS =
     [(matchWhitespace, None),
      (matchKeyword (js ''XNOR''), Some T_XNOR),
      (matchKeyword (js ''NAND''), Some T_NAND),
      (matchKeyword (js ''NOR''), Some T_NOR),
      (matchKeyword (js ''XOR''), Some T_XOR),
      (matchKeyword (js ''AND''), Some T_AND),
      (matchKeyword (js ''OR''), Some T_OR),
      (matchKeyword (js ''NOT''), Some T_NOT),
      (matchBit, Some T_LITERAL),
      (matchTrueFalse, Some T_LITERAL),
      (matchIdentifier, Some T_VARIABLE),
      (matchOneOf [40], Some T_LPAREN),
      (matchOneOf [41], Some T_RPAREN),
      (matchOneOf [38, 8743], Some T_AND),
      (matchDot, Some T_AND),
      (matchOneOf [42], Some T_AND),
      (matchOneOf [124, 8744], Some T_OR),
      (matchOneOf [43], Some T_OR),
      (matchOneOf [126, 33, 172], Some T_NOT),
      (matchOneOf [39], Some T_NOT),
      (matchOneOf [94, 8853], Some T_XOR),
      (matchOneOf [8593], Some T_NAND),
      (matchOneOf [8595], Some T_NOR),
      (matchOneOf [8857, 8596], Some T_XNOR)]"

fun firstMatch ::
  "((jsstring \<Rightarrow> nat option) \<times> TokenType option) list \<Rightarrow> jsstring
     \<Rightarrow> (nat \<times> TokenType option) option" where
  "firstMatch [] remaining = None"
| "firstMatch ((pattern, ty) # rest) remaining =
     (case pattern remaining of
        Some k \<Rightarrow> Some (k, ty)
      | None \<Rightarrow> firstMatch rest remaining)"

definition normalizeValue :: "TokenType \<Rightarrow> jsstring \<Rightarrow> jsstring" where
  "normalizeValue ty v =
     (if ty = T_VARIABLE then toUpperCase v
      else if ty = T_LITERAL then
        (let lower = toLowerCase v in
         if lower = js ''true'' \<or> lower = js ''1'' then js ''1'' else js ''0'')
      else v)"

text \<open>
  \<^verbatim>\<open>nextToken\<close>: the first pattern that matches the rest of the input decides; white
  space yields no token; no match throws a \<^verbatim>\<open>ParseError\<close> of length 1 (its advisory
  suggestion text is not part of the model).  The result carries the new position.
\<close>

definition nextToken :: "jsstring \<Rightarrow> nat \<Rightarrow> error + Token option \<times> nat" where
  "nextToken input position =
     (let remaining = drop position input in
      case firstMatch TOKEN_PATTERNS remaining of
        Some (k, ty) \<Rightarrow>
          (let v = take k remaining; startPos = position in
           case ty of
             None \<Rightarrow> Inr (None, position + k)
           | Some t \<Rightarrow>
               Inr (Some \<lparr>tok_type = t, tok_value = normalizeValue t v,
                          tok_position = startPos, tok_length = k\<rparr>,
                    position + k))
      | None \<Rightarrow> Inl (ParseError (UnexpectedCharacter (take 1 remaining)) position 1))"

lemma firstMatch_positive:
  assumes "\<forall>(m, ty) \<in> set ps. \<forall>r k. m r = Some k \<longrightarrow> 0 < k"
  shows "firstMatch ps r = Some (k, ty) \<Longrightarrow> 0 < k"
  using assms by (induction ps) (auto split: option.splits)

lemma matchers_positive:
  "matchWhitespace r = Some k \<Longrightarrow> 0 < k"
  "kw \<noteq> [] \<Longrightarrow> matchKeyword kw r = Some k \<Longrightarrow> 0 < k"
  "matchKeyword (x # xs) r = Some k \<Longrightarrow> 0 < k"
  "matchBit r = Some k \<Longrightarrow> 0 < k"
  "matchTrueFalse r = Some k \<Longrightarrow> 0 < k"
  "matchIdentifier r = Some k \<Longrightarrow> 0 < k"
  "matchOneOf cs r = Some k \<Longrightarrow> 0 < k"
  "matchDot r = Some k \<Longrightarrow> 0 < k"
  by (auto simp add: matchWhitespace_def matchKeyword_def matchBit_def matchTrueFalse_def
        matchIdentifier_def matchOneOf_def matchDot_def Let_def js_def toUpperCase_def
        split: if_splits list.splits option.splits)

lemma TOKEN_PATTERNS_positive: "firstMatch TOKEN_PATTERNS r = Some (k, ty) \<Longrightarrow> 0 < k"
  by (erule firstMatch_positive [rotated])
     (auto simp add: TOKEN_PATTERNS_def js_def dest: matchers_positive)

lemma nextToken_advances: "nextToken input position = Inr (t, position') \<Longrightarrow> position < position'"
  by (auto simp add: nextToken_def Let_def split: option.splits dest: TOKEN_PATTERNS_positive)

text \<open>The loop of \<^verbatim>\<open>Lexer.tokenize\<close>, and the \<^verbatim>\<open>EOF\<close> token appended at its end.\<close>

function tokenizeLoop :: "jsstring \<Rightarrow> nat \<Rightarrow> Token list \<Rightarrow> error + Token list" where
  "tokenizeLoop input position toks =
     (if position < length input then
        (case nextToken input position of
           Inl e \<Rightarrow> Inl e
         | Inr (token, position') \<Rightarrow>
             tokenizeLoop input position' (case token of None \<Rightarrow> toks | Some t \<Rightarrow> toks @ [t]))
      else
        Inr (toks @ [\<lparr>tok_type = T_EOF, tok_value = [], tok_position = position, tok_length = 0\<rparr>]))"
  by pat_completeness auto
termination tokenizeLoop
  by (relation "measure (\<lambda>(input, position, toks). length input - position)")
     (auto dest: nextToken_advances)

declare tokenizeLoop.simps [simp del]

definition tokenize :: "jsstring \<Rightarrow> error + Token list" where
  "tokenize input = tokenizeLoop input 0 []"

section \<open>The TypeScript engine: the parser\<close>

text \<open>
  The state of a \<^verbatim>\<open>Parser\<close>: \<open>tokens\<close> holds the tokens from index \<^verbatim>\<open>current\<close> on (so
  \<^verbatim>\<open>peek\<close> is its head and \<^verbatim>\<open>previous\<close> after an \<^verbatim>\<open>advance\<close> is the head before it),
  \<open>pvariables\<close> is the set \<^verbatim>\<open>this.variables\<close> in insertion order, and \<open>ids\<close> counts the
  calls of \<^verbatim>\<open>nanoid\<close> made so far.  \<^verbatim>\<open>nanoid(8)\<close> returns a random string; the sequence
  of strings it returns is a parameter \<open>nanoid\<close> of every function that creates a node.
\<close>

record Parser =
  tokens :: "Token list"
  pvariables :: "jsstring list"
  ids :: nat

definition isAtEnd :: "Parser \<Rightarrow> bool" where
  "isAtEnd p = (case tokens p of [] \<Rightarrow> True | t # _ \<Rightarrow> tok_type t = T_EOF)"

definition peek :: "Parser \<Rightarrow> Token" where
  "peek p = hd (tokens p)"

definition check :: "Parser \<Rightarrow> TokenType \<Rightarrow> bool" where
  "check p ty = (if isAtEnd p then False else tok_type (peek p) = ty)"

definition advance :: "Parser \<Rightarrow> Parser" where
  "advance p = (if \<not> isAtEnd p then p\<lparr>tokens := tl (tokens p)\<rparr> else p)"

text \<open>\<^verbatim>\<open>Set.add\<close> on the insertion-ordered list of names.\<close>

definition setAdd :: "'a \<Rightarrow> 'a list \<Rightarrow> 'a list" where
  "setAdd x xs = (if x \<in> set xs then xs else xs @ [x])"

text \<open>
  \<^verbatim>\<open>typeMap\<close> of \<^verbatim>\<open>createBinaryNode\<close>; the parser calls it with the six binary operator
  types only.
\<close>

fun typeMap :: "TokenType \<Rightarrow> ASTNodeType option" where
  "typeMap T_AND = Some N_AND"
| "typeMap T_OR = Some N_OR"
| "typeMap T_XOR = Some N_XOR"
| "typeMap T_NAND = Some N_NAND"
| "typeMap T_NOR = Some N_NOR"
| "typeMap T_XNOR = Some N_XNOR"
| "typeMap _ = None"

definition createBinaryNode ::
  "(nat \<Rightarrow> jsstring) \<Rightarrow> TokenType \<Rightarrow> ASTNode \<Rightarrow> ASTNode \<Rightarrow> Parser \<Rightarrow> ASTNode \<times> Parser" where
  "createBinaryNode nanoid operatorType left right p =
     (ASTBinaryOp (the (typeMap operatorType)) left right (nanoid (ids p)), p\<lparr>ids := Suc (ids p)\<rparr>)"

definition createUnaryNode :: "(nat \<Rightarrow> jsstring) \<Rightarrow> ASTNode \<Rightarrow> Parser \<Rightarrow> ASTNode \<times> Parser" where
  "createUnaryNode nanoid operand p =
     (ASTUnaryOp operand (nanoid (ids p)), p\<lparr>ids := Suc (ids p)\<rparr>)"

text \<open>The loop of \<^verbatim>\<open>parseUnary\<close> that consumes postfix apostrophes (code unit 39).\<close>

function postfixLoop :: "(nat \<Rightarrow> jsstring) \<Rightarrow> ASTNode \<Rightarrow> Parser \<Rightarrow> ASTNode \<times> Parser" where
  "postfixLoop nanoid node p =
     (if check p T_NOT \<and> tok_value (peek p) = [39]
      then (case createUnaryNode nanoid node (advance p) of (node', p') \<Rightarrow> postfixLoop nanoid node' p')
      else (node, p))"
  by pat_completeness auto
termination
  by (relation "measure (\<lambda>(nanoid, node, p). length (tokens p))")
     (auto simp add: check_def isAtEnd_def advance_def createUnaryNode_def split: list.splits if_splits)

declare postfixLoop.simps [simp del]

text \<open>
  The recursive descent functions.  Each \<^verbatim>\<open>while\<close> loop of the source is a function of
  its own (\<open>orLoop\<close>, \<open>xorLoop\<close>, \<open>andLoop\<close>, \<open>implicitLoop\<close>) that takes the left operand
  built so far.
\<close>

function (domintros)
    parseExpression :: "(nat \<Rightarrow> jsstring) \<Rightarrow> Parser \<Rightarrow> error + ASTNode \<times> Parser"
and orLoop :: "(nat \<Rightarrow> jsstring) \<Rightarrow> ASTNode \<Rightarrow> Parser \<Rightarrow> error + ASTNode \<times> Parser"
and parseTerm :: "(nat \<Rightarrow> jsstring) \<Rightarrow> Parser \<Rightarrow> error + ASTNode \<times> Parser"
and xorLoop :: "(nat \<Rightarrow> jsstring) \<Rightarrow> ASTNode \<Rightarrow> Parser \<Rightarrow> error + ASTNode \<times> Parser"
and parseFactor :: "(nat \<Rightarrow> jsstring) \<Rightarrow> Parser \<Rightarrow> error + ASTNode \<times> Parser"
and andLoop :: "(nat \<Rightarrow> jsstring) \<Rightarrow> ASTNode \<Rightarrow> Parser \<Rightarrow> error + ASTNode \<times> Parser"
and implicitLoop :: "(nat \<Rightarrow> jsstring) \<Rightarrow> ASTNode \<Rightarrow> Parser \<Rightarrow> error + ASTNode \<times> Parser"
and parseUnary :: "(nat \<Rightarrow> jsstring) \<Rightarrow> Parser \<Rightarrow> error + ASTNode \<times> Parser"
and parsePrimary :: "(nat \<Rightarrow> jsstring) \<Rightarrow> Parser \<Rightarrow> error + ASTNode \<times> Parser"
where
  "parseExpression nanoid p =
     (case parseTerm nanoid p of
        Inl e \<Rightarrow> Inl e
      | Inr (left, p1) \<Rightarrow> orLoop nanoid left p1)"
| "orLoop nanoid left p =
     (if check p T_OR \<or> check p T_NOR then
        (let operator = peek p in
         case parseTerm nanoid (advance p) of
           Inl e \<Rightarrow> Inl e
         | Inr (right, p1) \<Rightarrow>
             (case createBinaryNode nanoid (tok_type operator) left right p1 of
                (node, p2) \<Rightarrow> orLoop nanoid node p2))
      else Inr (left, p))"
| "parseTerm nanoid p =
     (case parseFactor nanoid p of
        Inl e \<Rightarrow> Inl e
      | Inr (left, p1) \<Rightarrow> xorLoop nanoid left p1)"
| "xorLoop nanoid left p =
     (if check p T_XOR \<or> check p T_XNOR then
        (let operator = peek p in
         case parseFactor nanoid (advance p) of
           Inl e \<Rightarrow> Inl e
         | Inr (right, p1) \<Rightarrow>
             (case createBinaryNode nanoid (tok_type operator) left right p1 of
                (node, p2) \<Rightarrow> xorLoop nanoid node p2))
      else Inr (left, p))"
| "parseFactor nanoid p =
     (case parseUnary nanoid p of
        Inl e \<Rightarrow> Inl e
      | Inr (left, p1) \<Rightarrow> andLoop nanoid left p1)"
| "andLoop nanoid left p =
     (if check p T_AND \<or> check p T_NAND then
        (let operator = peek p in
         case parseUnary nanoid (advance p) of
           Inl e \<Rightarrow> Inl e
         | Inr (right, p1) \<Rightarrow>
             (case createBinaryNode nanoid (tok_type operator) left right p1 of
                (node, p2) \<Rightarrow> andLoop nanoid node p2))
      else implicitLoop nanoid left p)"
| "implicitLoop nanoid left p =
     (if check p T_VARIABLE \<or> check p T_LPAREN \<or> check p T_NOT \<or> check p T_LITERAL then
        (case parseUnary nanoid p of
           Inl e \<Rightarrow> Inl e
         | Inr (right, p1) \<Rightarrow>
             (case createBinaryNode nanoid T_AND left right p1 of
                (node, p2) \<Rightarrow> implicitLoop nanoid node p2))
      else Inr (left, p))"
| "parseUnary nanoid p =
     (if check p T_NOT then
        (case parseUnary nanoid (advance p) of
           Inl e \<Rightarrow> Inl e
         | Inr (operand, p1) \<Rightarrow> Inr (createUnaryNode nanoid operand p1))
      else
        (case parsePrimary nanoid p of
           Inl e \<Rightarrow> Inl e
         | Inr (node, p1) \<Rightarrow> Inr (postfixLoop nanoid node p1)))"
| "parsePrimary nanoid p =
     (if check p T_LITERAL then
        (let token = peek p; p1 = advance p in
         Inr (ASTLiteral (tok_value token = [49]) (nanoid (ids p1)), p1\<lparr>ids := Suc (ids p1)\<rparr>))
      else if check p T_VARIABLE then
        (let token = peek p; p1 = advance p;
             p2 = p1\<lparr>pvariables := setAdd (tok_value token) (pvariables p1)\<rparr> in
         Inr (ASTVariable (tok_value token) (nanoid (ids p2)), p2\<lparr>ids := Suc (ids p2)\<rparr>))
      else if check p T_LPAREN then
        (case parseExpression nanoid (advance p) of
           Inl e \<Rightarrow> Inl e
         | Inr (expr, p1) \<Rightarrow>
             if check p1 T_RPAREN then Inr (expr, advance p1)
             else (let token = peek p1 in
                   Inl (ParseError MissingClosingParenthesis (tok_position token) (tok_length token))))
      else
        (let token = peek p in
         Inl (ParseError
               (if tok_type token = T_EOF then UnexpectedEndOfExpression
                else ExpectedVariableOrValue (tok_value token))
               (tok_position token) (tok_length token))))"
  by pat_completeness auto


text \<open>
  Termination: every function returns a parser state with no more tokens than it was
  given, and the functions that parse an operand consume at least one token.
\<close>

abbreviation (input) "parse_dom \<equiv> parseExpression_orLoop_parseTerm_xorLoop_parseFactor_andLoop_implicitLoop_parseUnary_parsePrimary_dom"

lemma advance_shrinks: "check p ty \<Longrightarrow> length (tokens (advance p)) < length (tokens p)"
  by (auto simp add: check_def advance_def isAtEnd_def split: list.splits if_splits)

lemma createBinaryNode_tokens:
  "createBinaryNode g ty l r p = (n, p') \<Longrightarrow> tokens p' = tokens p"
  by (auto simp add: createBinaryNode_def)

lemma createUnaryNode_tokens:
  "createUnaryNode g n p = (n', p') \<Longrightarrow> tokens p' = tokens p"
  by (auto simp add: createUnaryNode_def)

lemma postfixLoop_tokens:
  "postfixLoop g n p = (n', p') \<Longrightarrow> length (tokens p') \<le> length (tokens p)"
proof (induction g n p arbitrary: n' p' rule: postfixLoop.induct)
  case (1 nanoid node p)
  show ?case
  proof (cases "check p T_NOT \<and> tok_value (peek p) = [39]")
    case True
    obtain node1 p1 where c: "createUnaryNode nanoid node (advance p) = (node1, p1)"
      by (cases "createUnaryNode nanoid node (advance p)")
    with True "1.prems" have "postfixLoop nanoid node1 p1 = (n', p')"
      by (simp add: postfixLoop.simps [of nanoid node p])
    from "1.IH" [OF True c [symmetric] this]
    have "length (tokens p') \<le> length (tokens p1)" .
    moreover have "tokens p1 = tokens (advance p)" using c by (rule createUnaryNode_tokens)
    moreover have "length (tokens (advance p)) < length (tokens p)"
      using True advance_shrinks by blast
    ultimately show ?thesis by simp
  next
    case False
    with "1.prems" show ?thesis by (simp add: postfixLoop.simps [of nanoid node p])
  qed
qed

lemma parse_shrinks_partial:
  "parse_dom (Inl (Inl (Inl (g, p)))) \<Longrightarrow>
     (\<forall>a p'. parseExpression g p = Inr (a, p') \<longrightarrow> length (tokens p') < length (tokens p))"
  "parse_dom (Inl (Inl (Inr (g, l, p)))) \<Longrightarrow>
     (\<forall>a p'. orLoop g l p = Inr (a, p') \<longrightarrow> length (tokens p') \<le> length (tokens p))"
  "parse_dom (Inl (Inr (Inl (g, p)))) \<Longrightarrow>
     (\<forall>a p'. parseTerm g p = Inr (a, p') \<longrightarrow> length (tokens p') < length (tokens p))"
  "parse_dom (Inl (Inr (Inr (g, l, p)))) \<Longrightarrow>
     (\<forall>a p'. xorLoop g l p = Inr (a, p') \<longrightarrow> length (tokens p') \<le> length (tokens p))"
  "parse_dom (Inr (Inl (Inl (g, p)))) \<Longrightarrow>
     (\<forall>a p'. parseFactor g p = Inr (a, p') \<longrightarrow> length (tokens p') < length (tokens p))"
  "parse_dom (Inr (Inl (Inr (g, l, p)))) \<Longrightarrow>
     (\<forall>a p'. andLoop g l p = Inr (a, p') \<longrightarrow> length (tokens p') \<le> length (tokens p))"
  "parse_dom (Inr (Inr (Inl (g, l, p)))) \<Longrightarrow>
     (\<forall>a p'. implicitLoop g l p = Inr (a, p') \<longrightarrow> length (tokens p') \<le> length (tokens p))"
  "parse_dom (Inr (Inr (Inr (Inl (g, p))))) \<Longrightarrow>
     (\<forall>a p'. parseUnary g p = Inr (a, p') \<longrightarrow> length (tokens p') < length (tokens p))"
  "parse_dom (Inr (Inr (Inr (Inr (g, p))))) \<Longrightarrow>
     (\<forall>a p'. parsePrimary g p = Inr (a, p') \<longrightarrow> length (tokens p') < length (tokens p))"
proof (induct rule: parseExpression_orLoop_parseTerm_xorLoop_parseFactor_andLoop_implicitLoop_parseUnary_parsePrimary.pinduct)
  case (1 nanoid p)
  then show ?case
    by (fastforce simp add: parseExpression.psimps split: sum.splits prod.splits)
next
  case (2 nanoid left p)
  show ?case
  proof (intro allI impI)
    fix a p' assume r: "orLoop nanoid left p = Inr (a, p')"
    show "length (tokens p') \<le> length (tokens p)"
    proof (cases "check p T_OR \<or> check p T_NOR")
      case True
      from r True 2(1) obtain right p1 node p2 where
        t: "parseTerm nanoid (advance p) = Inr (right, p1)"
        and c: "createBinaryNode nanoid (tok_type (peek p)) left right p1 = (node, p2)"
        and l: "orLoop nanoid node p2 = Inr (a, p')"
        by (auto simp add: orLoop.psimps Let_def split: sum.splits prod.splits)
      have "length (tokens p1) < length (tokens (advance p))"
        using 2(2) [OF True refl] t by blast
      moreover have "length (tokens (advance p)) < length (tokens p)"
        using True advance_shrinks by blast
      moreover have "tokens p2 = tokens p1" using c by (rule createBinaryNode_tokens)
      moreover have "length (tokens p') \<le> length (tokens p2)"
        using 2(3) [OF True refl t refl c [symmetric]] l by blast
      ultimately show ?thesis by simp
    next
      case False
      with r 2(1) show ?thesis by (simp add: orLoop.psimps)
    qed
  qed
next
  case (3 nanoid p)
  then show ?case
    by (fastforce simp add: parseTerm.psimps split: sum.splits prod.splits)
next
  case (4 nanoid left p)
  show ?case
  proof (intro allI impI)
    fix a p' assume r: "xorLoop nanoid left p = Inr (a, p')"
    show "length (tokens p') \<le> length (tokens p)"
    proof (cases "check p T_XOR \<or> check p T_XNOR")
      case True
      from r True 4(1) obtain right p1 node p2 where
        t: "parseFactor nanoid (advance p) = Inr (right, p1)"
        and c: "createBinaryNode nanoid (tok_type (peek p)) left right p1 = (node, p2)"
        and l: "xorLoop nanoid node p2 = Inr (a, p')"
        by (auto simp add: xorLoop.psimps Let_def split: sum.splits prod.splits)
      have "length (tokens p1) < length (tokens (advance p))"
        using 4(2) [OF True refl] t by blast
      moreover have "length (tokens (advance p)) < length (tokens p)"
        using True advance_shrinks by blast
      moreover have "tokens p2 = tokens p1" using c by (rule createBinaryNode_tokens)
      moreover have "length (tokens p') \<le> length (tokens p2)"
        using 4(3) [OF True refl t refl c [symmetric]] l by blast
      ultimately show ?thesis by simp
    next
      case False
      with r 4(1) show ?thesis by (simp add: xorLoop.psimps)
    qed
  qed
next
  case (5 nanoid p)
  then show ?case
    by (fastforce simp add: parseFactor.psimps split: sum.splits prod.splits)
next
  case (6 nanoid left p)
  show ?case
  proof (intro allI impI)
    fix a p' assume r: "andLoop nanoid left p = Inr (a, p')"
    show "length (tokens p') \<le> length (tokens p)"
    proof (cases "check p T_AND \<or> check p T_NAND")
      case True
      from r True 6(1) obtain right p1 node p2 where
        t: "parseUnary nanoid (advance p) = Inr (right, p1)"
        and c: "createBinaryNode nanoid (tok_type (peek p)) left right p1 = (node, p2)"
        and l: "andLoop nanoid node p2 = Inr (a, p')"
        by (auto simp add: andLoop.psimps Let_def split: sum.splits prod.splits)
      have "length (tokens p1) < length (tokens (advance p))"
        using 6(2) [OF True refl] t by blast
      moreover have "length (tokens (advance p)) < length (tokens p)"
        using True advance_shrinks by blast
      moreover have "tokens p2 = tokens p1" using c by (rule createBinaryNode_tokens)
      moreover have "length (tokens p') \<le> length (tokens p2)"
        using 6(3) [OF True refl t refl c [symmetric]] l by blast
      ultimately show ?thesis by simp
    next
      case False
      with r 6(1) have "implicitLoop nanoid left p = Inr (a, p')"
        by (simp add: andLoop.psimps)
      with 6(4) [OF False] show ?thesis by blast
    qed
  qed
next
  case (7 nanoid left p)
  show ?case
  proof (intro allI impI)
    fix a p' assume r: "implicitLoop nanoid left p = Inr (a, p')"
    show "length (tokens p') \<le> length (tokens p)"
    proof (cases "check p T_VARIABLE \<or> check p T_LPAREN \<or> check p T_NOT \<or> check p T_LITERAL")
      case True
      from r True 7(1) obtain right p1 node p2 where
        t: "parseUnary nanoid p = Inr (right, p1)"
        and c: "createBinaryNode nanoid T_AND left right p1 = (node, p2)"
        and l: "implicitLoop nanoid node p2 = Inr (a, p')"
        by (auto simp add: implicitLoop.psimps Let_def split: sum.splits prod.splits)
      have "length (tokens p1) < length (tokens p)"
        using 7(2) [OF True] t by blast
      moreover have "tokens p2 = tokens p1" using c by (rule createBinaryNode_tokens)
      moreover have "length (tokens p') \<le> length (tokens p2)"
        using 7(3) [OF True t refl c [symmetric]] l by blast
      ultimately show ?thesis by simp
    next
      case False
      with r 7(1) show ?thesis by (simp add: implicitLoop.psimps)
    qed
  qed
next
  case (8 nanoid p)
  show ?case
  proof (intro allI impI)
    fix a p' assume r: "parseUnary nanoid p = Inr (a, p')"
    show "length (tokens p') < length (tokens p)"
    proof (cases "check p T_NOT")
      case True
      from r True 8(1) obtain operand p1 where
        t: "parseUnary nanoid (advance p) = Inr (operand, p1)"
        and c: "createUnaryNode nanoid operand p1 = (a, p')"
        by (auto simp add: parseUnary.psimps split: sum.splits prod.splits)
      have "length (tokens p1) < length (tokens (advance p))"
        using 8(2) [OF True] t by blast
      moreover have "length (tokens (advance p)) < length (tokens p)"
        using True advance_shrinks by blast
      moreover have "tokens p' = tokens p1" using c by (rule createUnaryNode_tokens)
      ultimately show ?thesis by simp
    next
      case False
      from r False 8(1) obtain node p1 where
        t: "parsePrimary nanoid p = Inr (node, p1)"
        and c: "postfixLoop nanoid node p1 = (a, p')"
        by (auto simp add: parseUnary.psimps split: sum.splits prod.splits)
      have "length (tokens p1) < length (tokens p)"
        using 8(3) [OF False] t by blast
      moreover have "length (tokens p') \<le> length (tokens p1)"
        using c by (rule postfixLoop_tokens)
      ultimately show ?thesis by simp
    qed
  qed
next
  case (9 nanoid p)
  show ?case
  proof (intro allI impI)
    fix a p' assume r: "parsePrimary nanoid p = Inr (a, p')"
    show "length (tokens p') < length (tokens p)"
    proof (cases "check p T_LITERAL \<or> check p T_VARIABLE")
      case True
      then have "length (tokens (advance p)) < length (tokens p)"
        using advance_shrinks by blast
      with r True 9(1) show ?thesis
        by (auto simp add: parsePrimary.psimps Let_def split: if_splits)
    next
      case False
      show ?thesis
      proof (cases "check p T_LPAREN")
        case True
        from r True False 9(1) obtain expr p1 where
          t: "parseExpression nanoid (advance p) = Inr (expr, p1)"
          and c: "check p1 T_RPAREN" and e: "p' = advance p1"
          by (auto simp add: parsePrimary.psimps Let_def split: sum.splits prod.splits if_splits)
        have "length (tokens p1) < length (tokens (advance p))"
          using 9(2) [OF _ _ True] False t by blast
        moreover have "length (tokens (advance p)) < length (tokens p)"
          using True advance_shrinks by blast
        moreover have "length (tokens p') < length (tokens p1)"
          using c e advance_shrinks by blast
        ultimately show ?thesis by simp
      next
        case nl: False
        with r False 9(1) show ?thesis
          by (auto simp add: parsePrimary.psimps Let_def)
      qed
    qed
  qed
qed


definition parse_measure ::
  "((((nat \<Rightarrow> jsstring) \<times> Parser) + ((nat \<Rightarrow> jsstring) \<times> ASTNode \<times> Parser)) + (((nat \<Rightarrow> jsstring) \<times> Parser) + ((nat \<Rightarrow> jsstring) \<times> ASTNode \<times> Parser))) + ((((nat \<Rightarrow> jsstring) \<times> Parser) + ((nat \<Rightarrow> jsstring) \<times> ASTNode \<times> Parser)) + (((nat \<Rightarrow> jsstring) \<times> ASTNode \<times> Parser) + (((nat \<Rightarrow> jsstring) \<times> Parser) + ((nat \<Rightarrow> jsstring) \<times> Parser)))) \<Rightarrow> nat \<times> nat" where
  "parse_measure x = (case x of
       Inl (Inl (Inl (g, p))) \<Rightarrow> (length (tokens p), 8::nat)
     | Inl (Inl (Inr (g, l, p))) \<Rightarrow> (length (tokens p), 7)
     | Inl (Inr (Inl (g, p))) \<Rightarrow> (length (tokens p), 6)
     | Inl (Inr (Inr (g, l, p))) \<Rightarrow> (length (tokens p), 5)
     | Inr (Inl (Inl (g, p))) \<Rightarrow> (length (tokens p), 4)
     | Inr (Inl (Inr (g, l, p))) \<Rightarrow> (length (tokens p), 3)
     | Inr (Inr (Inl (g, l, p))) \<Rightarrow> (length (tokens p), 2)
     | Inr (Inr (Inr (Inl (g, p)))) \<Rightarrow> (length (tokens p), 1)
     | Inr (Inr (Inr (Inr (g, p)))) \<Rightarrow> (length (tokens p), 0))"

lemma advance_shrinks_or:
  "check p ty \<or> check p ty' \<Longrightarrow> length (tokens (advance p)) < length (tokens p)"
  using advance_shrinks by blast

lemma advance_le: "length (tokens (advance p)) \<le> length (tokens p)"
  by (simp add: advance_def)

lemmas shrinkD = parse_shrinks_partial [rule_format]

lemma shrink_after_advance:
  "parse_dom (Inl (Inr (Inl (g, advance p)))) \<Longrightarrow> parseTerm g (advance p) = Inr (a, p')
     \<Longrightarrow> length (tokens p') < length (tokens p)"
  "parse_dom (Inr (Inl (Inl (g, advance p)))) \<Longrightarrow> parseFactor g (advance p) = Inr (a, p')
     \<Longrightarrow> length (tokens p') < length (tokens p)"
  "parse_dom (Inr (Inr (Inr (Inl (g, advance p))))) \<Longrightarrow> parseUnary g (advance p) = Inr (a, p')
     \<Longrightarrow> length (tokens p') < length (tokens p)"
  using shrinkD(3,5,8) [of g "advance p" a p'] advance_le [of p] by simp_all

termination parseExpression
  apply (relation "inv_image (less_than <*lex*> less_than) parse_measure")
  subgoal by (intro wf_inv_image wf_lex_prod wf_less_than)
  apply (auto simp add: parse_measure_def createBinaryNode_def
      dest: shrinkD advance_shrinks shrink_after_advance intro: advance_shrinks)
  done


declare parseExpression.simps [simp del] orLoop.simps [simp del] parseTerm.simps [simp del]
  xorLoop.simps [simp del] parseFactor.simps [simp del] andLoop.simps [simp del]
  implicitLoop.simps [simp del] parseUnary.simps [simp del] parsePrimary.simps [simp del]

text \<open>
  \<^verbatim>\<open>Parser.parse\<close>: the empty-expression check (\<^verbatim>\<open>trim\<close> removes exactly the characters of
  \<^verbatim>\<open>\s\<close>), the lexer, \<^verbatim>\<open>parseExpression\<close>, the check for trailing tokens, and the sorted
  list of variable names (the default sort compares code units).
\<close>

definition parse :: "(nat \<Rightarrow> jsstring) \<Rightarrow> jsstring \<Rightarrow> error + ASTNode \<times> jsstring list" where
  "parse nanoid expr =
     (if list_all isWhitespace expr then Inl (ParseError ExpressionCannotBeEmpty 0 0)
      else
        (case tokenize expr of
           Inl e \<Rightarrow> Inl e
         | Inr toks \<Rightarrow>
             (case parseExpression nanoid \<lparr>tokens = toks, pvariables = [], ids = 0\<rparr> of
                Inl e \<Rightarrow> Inl e
              | Inr (ast, p) \<Rightarrow>
                  if \<not> isAtEnd p then
                    (let token = peek p in
                     Inl (ParseError (UnexpectedToken (tok_value token))
                            (tok_position token) (tok_length token)))
                  else Inr (ast, sort (pvariables p)))))"

lemmas lexer_simps = tokenize_def tokenizeLoop.simps nextToken_def TOKEN_PATTERNS_def
  matchWhitespace_def matchKeyword_def matchBit_def matchTrueFalse_def matchIdentifier_def
  matchOneOf_def matchDot_def normalizeValue_def toUpperCase_def toLowerCase_def
  notFollowedBy_def isWhitespace_def isDigit_def isLetter_def isWordChar_def js_def Let_def

lemmas parser_simps = parse_def parseExpression.simps orLoop.simps parseTerm.simps
  xorLoop.simps parseFactor.simps andLoop.simps implicitLoop.simps parseUnary.simps
  parsePrimary.simps postfixLoop.simps check_def isAtEnd_def peek_def advance_def
  createBinaryNode_def createUnaryNode_def

section \<open>The JavaScript client library: the lexer\<close>

text \<open>
  The client library (\<^verbatim>\<open>client/src/lib/logic\<close>) is a second implementation of the same
  pipeline.  Its token types and tokens; the value of a \<^verbatim>\<open>CONSTANT\<close> token is the number
  0 or 1, every other value is a string.
\<close>

datatype JTokenType =
    J_VARIABLE | J_AND | J_OR | J_NOT | J_XOR | J_NAND | J_NOR | J_XNOR
  | J_LPAREN | J_RPAREN | J_CONSTANT | J_EOF

datatype jsvalue = StringValue jsstring | NumberValue nat

record JToken =
  jtype :: JTokenType
  jvalue :: jsvalue
  jposition :: nat

text \<open>
  The errors of the client library: a \<^verbatim>\<open>LexerError\<close> with the offending character and
  its position, a \<^verbatim>\<open>ParserError\<close> with its message template and token, and the error
  of \<^verbatim>\<open>VariableNode.evaluate\<close>.
\<close>

datatype jmessage =
    UnexpectedTokenAfterExpression jsvalue
  | ExpectedRParenAfterExpression
  | ExpectedVariableConstantOrLParen jsvalue

datatype jerror =
    LexerError jsstring nat
  | ParserError jmessage JToken
  | VariableNotDefined jsstring

definition skipWhitespace :: "jsstring \<Rightarrow> nat \<Rightarrow> nat" where
  "skipWhitespace input position =
     position + length (takeWhile isWhitespace (drop position input))"

text \<open>The object \<^verbatim>\<open>keywords\<close> of \<^verbatim>\<open>readIdentifier\<close>.\<close>

definition keywordTable :: "jsstring \<Rightarrow> JTokenType option" where
  "keywordTable k =
     (if k = js ''AND'' then Some J_AND
      else if k = js ''OR'' then Some J_OR
      else if k = js ''NOT'' then Some J_NOT
      else if k = js ''XOR'' then Some J_XOR
      else if k = js ''NAND'' then Some J_NAND
      else if k = js ''NOR'' then Some J_NOR
      else if k = js ''XNOR'' then Some J_XNOR
      else None)"

text \<open>
  \<^verbatim>\<open>readIdentifier\<close>: keywords and \<^verbatim>\<open>TRUE\<close>/\<^verbatim>\<open>FALSE\<close> are recognised on the upper-cased
  text; a variable token carries the text as it was written.
\<close>

definition readIdentifier :: "jsstring \<Rightarrow> nat \<Rightarrow> JToken \<times> nat" where
  "readIdentifier input position =
     (let startPos = position;
          v = takeWhile isWordChar (drop position input);
          position' = position + length v;
          upperValue = toUpperCase v in
      (case keywordTable upperValue of
         Some ty \<Rightarrow> \<lparr>jtype = ty, jvalue = StringValue upperValue, jposition = startPos\<rparr>
       | None \<Rightarrow>
           if upperValue = js ''TRUE'' \<or> v = js ''1''
           then \<lparr>jtype = J_CONSTANT, jvalue = NumberValue 1, jposition = startPos\<rparr>
           else if upperValue = js ''FALSE'' \<or> v = js ''0''
           then \<lparr>jtype = J_CONSTANT, jvalue = NumberValue 0, jposition = startPos\<rparr>
           else \<lparr>jtype = J_VARIABLE, jvalue = StringValue v, jposition = startPos\<rparr>,
       position'))"

text \<open>
  The chain of single-character cases of \<^verbatim>\<open>Lexer.tokenize\<close>, in the order of the source:
  each consumes one character and pushes the token given here.
\<close>

definition singleCharToken :: "nat \<Rightarrow> (JTokenType \<times> jsvalue) option" where
  "singleCharToken c =
     (if c = 40 then Some (J_LPAREN, StringValue [40])
      else if c = 41 then Some (J_RPAREN, StringValue [41])
      else if c = 38 then Some (J_AND, StringValue [38])
      else if c = 124 then Some (J_OR, StringValue [124])
      else if c = 126 \<or> c = 33 then Some (J_NOT, StringValue [126])
      else if c = 94 then Some (J_XOR, StringValue [94])
      else if c = 43 then Some (J_OR, StringValue [43])
      else if c = 46 then Some (J_AND, StringValue [46])
      else if c = 42 then Some (J_AND, StringValue [42])
      else if c = 39 then Some (J_NOT, StringValue [39])
      else if c = 8853 then Some (J_XOR, StringValue [8853])
      else if c = 48 then Some (J_CONSTANT, NumberValue 0)
      else if c = 49 then Some (J_CONSTANT, NumberValue 1)
      else None)"

lemma readIdentifier_advances:
  "position < length input \<Longrightarrow> isLetter (input ! position) \<or> input ! position = 95
     \<Longrightarrow> readIdentifier input position = (t, position') \<Longrightarrow> position < position'"
proof -
  assume a: "position < length input" "isLetter (input ! position) \<or> input ! position = 95"
    and r: "readIdentifier input position = (t, position')"
  from a(1) obtain rest where d: "drop position input = input ! position # rest"
    by (metis Cons_nth_drop_Suc)
  have "isWordChar (input ! position)" using a(2) by (auto simp add: isWordChar_def)
  then have "0 < length (takeWhile isWordChar (drop position input))" by (simp add: d)
  with r show ?thesis by (auto simp add: readIdentifier_def Let_def)
qed

lemma skipWhitespace_ge: "position \<le> skipWhitespace input position"
  by (simp add: skipWhitespace_def)

lemma lexLoop_measure_char:
  "skipWhitespace input position < length input
     \<Longrightarrow> length input - Suc (skipWhitespace input position) < length input - position"
  using skipWhitespace_ge [of position input] by linarith

lemma lexLoop_measure:
  assumes "skipWhitespace input position < length input"
    and "isLetter (input ! skipWhitespace input position) \<or> input ! skipWhitespace input position = 95"
    and "(t, y) = readIdentifier input (skipWhitespace input position)"
  shows "length input - y < length input - position"
proof -
  have "skipWhitespace input position < y"
    using readIdentifier_advances [OF assms(1,2) assms(3) [symmetric]] .
  then show ?thesis
    using skipWhitespace_ge [of position input] assms(1) by linarith
qed

function lexLoop :: "jsstring \<Rightarrow> nat \<Rightarrow> JToken list \<Rightarrow> jerror + JToken list" where
  "lexLoop input position toks =
     (if \<not> position < length input
      then Inr (toks @ [\<lparr>jtype = J_EOF, jvalue = StringValue [], jposition = position\<rparr>])
      else
        (let position1 = skipWhitespace input position in
         if \<not> position1 < length input
         then Inr (toks @ [\<lparr>jtype = J_EOF, jvalue = StringValue [], jposition = position1\<rparr>])
         else
           (let startPos = position1; char = input ! position1 in
            case singleCharToken char of
              Some (ty, v) \<Rightarrow>
                lexLoop input (Suc position1)
                  (toks @ [\<lparr>jtype = ty, jvalue = v, jposition = startPos\<rparr>])
            | None \<Rightarrow>
                if isLetter char \<or> char = 95 then
                  (case readIdentifier input position1 of
                     (t, position2) \<Rightarrow> lexLoop input position2 (toks @ [t]))
                else Inl (LexerError [char] startPos))))"
  by pat_completeness auto
termination
  by (relation "measure (\<lambda>(input, position, toks). length input - position)")
     (auto intro: lexLoop_measure_char lexLoop_measure)

declare lexLoop.simps [simp del]

definition jsTokenize :: "jsstring \<Rightarrow> jerror + JToken list" where
  "jsTokenize input = lexLoop input 0 []"

lemmas jlexer_simps = jsTokenize_def lexLoop.simps skipWhitespace_def keywordTable_def
  readIdentifier_def singleCharToken_def toUpperCase_def isWhitespace_def isLetter_def
  isDigit_def isWordChar_def js_def Let_def

section \<open>The JavaScript client library: syntax trees and the parser\<close>

text \<open>
  The node classes.  The six subclasses of \<^verbatim>\<open>BinaryNode\<close> differ in their gate; the last
  argument of every node is \<open>k\<close> for the id \<^verbatim>\<open>node_k\<close> drawn from the static counter
  \<^verbatim>\<open>ASTNode.idCounter\<close>.
\<close>

datatype Gate = G_AND | G_OR | G_XOR | G_NAND | G_NOR | G_XNOR

datatype JNode =
    VariableNode jsstring nat
  | ConstantNode nat nat
  | NotNode JNode nat
  | BinaryNode Gate JNode JNode nat

abbreviation AndNode :: "JNode \<Rightarrow> JNode \<Rightarrow> nat \<Rightarrow> JNode" where
  "AndNode \<equiv> BinaryNode G_AND"
abbreviation OrNode :: "JNode \<Rightarrow> JNode \<Rightarrow> nat \<Rightarrow> JNode" where
  "OrNode \<equiv> BinaryNode G_OR"
abbreviation XorNode :: "JNode \<Rightarrow> JNode \<Rightarrow> nat \<Rightarrow> JNode" where
  "XorNode \<equiv> BinaryNode G_XOR"
abbreviation NandNode :: "JNode \<Rightarrow> JNode \<Rightarrow> nat \<Rightarrow> JNode" where
  "NandNode \<equiv> BinaryNode G_NAND"
abbreviation NorNode :: "JNode \<Rightarrow> JNode \<Rightarrow> nat \<Rightarrow> JNode" where
  "NorNode \<equiv> BinaryNode G_NOR"
abbreviation XnorNode :: "JNode \<Rightarrow> JNode \<Rightarrow> nat \<Rightarrow> JNode" where
  "XnorNode \<equiv> BinaryNode G_XNOR"

text \<open>
  The state of a client \<^verbatim>\<open>Parser\<close>: the tokens from index \<^verbatim>\<open>position\<close> on, and the static
  \<^verbatim>\<open>ASTNode.idCounter\<close>, which is shared by everything that creates nodes.
\<close>

record JParser =
  jtokens :: "JToken list"
  idCounter :: nat

definition j_isAtEnd :: "JParser \<Rightarrow> bool" where
  "j_isAtEnd p = (case jtokens p of [] \<Rightarrow> True | t # _ \<Rightarrow> jtype t = J_EOF)"

definition j_peek :: "JParser \<Rightarrow> JToken" where
  "j_peek p = hd (jtokens p)"

definition j_check :: "JParser \<Rightarrow> JTokenType \<Rightarrow> bool" where
  "j_check p ty = (if j_isAtEnd p then False else jtype (j_peek p) = ty)"

definition j_advance :: "JParser \<Rightarrow> JParser" where
  "j_advance p = (if \<not> j_isAtEnd p then p\<lparr>jtokens := tl (jtokens p)\<rparr> else p)"

definition generateId :: "JParser \<Rightarrow> nat \<times> JParser" where
  "generateId p = (Suc (idCounter p), p\<lparr>idCounter := Suc (idCounter p)\<rparr>)"

text \<open>
  \<open>truthy\<close> is the conversion of \<^verbatim>\<open>value ? 1 : 0\<close>; \<open>stringOf\<close> reads the name of a
  \<^verbatim>\<open>VARIABLE\<close> token, whose value is always a string.
\<close>

definition truthy :: "jsvalue \<Rightarrow> bool" where
  "truthy v = (case v of NumberValue n \<Rightarrow> n \<noteq> 0 | StringValue s \<Rightarrow> s \<noteq> [])"

definition stringOf :: "jsvalue \<Rightarrow> jsstring" where
  "stringOf v = (case v of StringValue s \<Rightarrow> s | NumberValue n \<Rightarrow> [])"

definition newBinaryNode :: "Gate \<Rightarrow> JNode \<Rightarrow> JNode \<Rightarrow> JParser \<Rightarrow> JNode \<times> JParser" where
  "newBinaryNode gate left right p =
     (case generateId p of (i, p') \<Rightarrow> (BinaryNode gate left right i, p'))"

definition newNotNode :: "JNode \<Rightarrow> JParser \<Rightarrow> JNode \<times> JParser" where
  "newNotNode operand p = (case generateId p of (i, p') \<Rightarrow> (NotNode operand i, p'))"

text \<open>
  The loop of \<^verbatim>\<open>postfix\<close>: an apostrophe wraps the node; any other \<^verbatim>\<open>NOT\<close> token is put
  back (\<^verbatim>\<open>position--\<close>) and ends the loop.
\<close>

function postfixWhile :: "JNode \<Rightarrow> JParser \<Rightarrow> JNode \<times> JParser" where
  "postfixWhile node p =
     (if j_check p J_NOT then
        (if jvalue (j_peek p) = StringValue [39]
         then (case newNotNode node (j_advance p) of (node', p') \<Rightarrow> postfixWhile node' p')
         else (node, p))
      else (node, p))"
  by pat_completeness auto
termination
  by (relation "measure (\<lambda>(node, p). length (jtokens p))")
     (auto simp add: j_check_def j_isAtEnd_def j_advance_def newNotNode_def generateId_def
        split: list.splits if_splits)

declare postfixWhile.simps [simp del]

text \<open>
  The recursive descent methods; \<^verbatim>\<open>expression\<close> is \<^verbatim>\<open>orExpression\<close>, and \<open>unary\<close> includes
  the call of \<^verbatim>\<open>postfix\<close>, which parses a primary and then runs the loop above.
\<close>

function (domintros)
    orExpression :: "JParser \<Rightarrow> jerror + JNode \<times> JParser"
and orExpressionLoop :: "JNode \<Rightarrow> JParser \<Rightarrow> jerror + JNode \<times> JParser"
and xorExpression :: "JParser \<Rightarrow> jerror + JNode \<times> JParser"
and xorExpressionLoop :: "JNode \<Rightarrow> JParser \<Rightarrow> jerror + JNode \<times> JParser"
and andExpression :: "JParser \<Rightarrow> jerror + JNode \<times> JParser"
and andExpressionLoop :: "JNode \<Rightarrow> JParser \<Rightarrow> jerror + JNode \<times> JParser"
and implicitAndLoop :: "JNode \<Rightarrow> JParser \<Rightarrow> jerror + JNode \<times> JParser"
and unary :: "JParser \<Rightarrow> jerror + JNode \<times> JParser"
and primary :: "JParser \<Rightarrow> jerror + JNode \<times> JParser"
where
  "orExpression p =
     (case xorExpression p of
        Inl e \<Rightarrow> Inl e
      | Inr (left, p1) \<Rightarrow> orExpressionLoop left p1)"
| "orExpressionLoop left p =
     (if j_check p J_OR \<or> j_check p J_NOR then
        (let operator = j_peek p in
         case xorExpression (j_advance p) of
           Inl e \<Rightarrow> Inl e
         | Inr (right, p1) \<Rightarrow>
             (case newBinaryNode (if jtype operator = J_OR then G_OR else G_NOR) left right p1 of
                (node, p2) \<Rightarrow> orExpressionLoop node p2))
      else Inr (left, p))"
| "xorExpression p =
     (case andExpression p of
        Inl e \<Rightarrow> Inl e
      | Inr (left, p1) \<Rightarrow> xorExpressionLoop left p1)"
| "xorExpressionLoop left p =
     (if j_check p J_XOR \<or> j_check p J_XNOR then
        (let operator = j_peek p in
         case andExpression (j_advance p) of
           Inl e \<Rightarrow> Inl e
         | Inr (right, p1) \<Rightarrow>
             (case newBinaryNode (if jtype operator = J_XOR then G_XOR else G_XNOR) left right p1 of
                (node, p2) \<Rightarrow> xorExpressionLoop node p2))
      else Inr (left, p))"
| "andExpression p =
     (case unary p of
        Inl e \<Rightarrow> Inl e
      | Inr (left, p1) \<Rightarrow> andExpressionLoop left p1)"
| "andExpressionLoop left p =
     (if j_check p J_AND \<or> j_check p J_NAND then
        (let operator = j_peek p in
         case unary (j_advance p) of
           Inl e \<Rightarrow> Inl e
         | Inr (right, p1) \<Rightarrow>
             (case newBinaryNode (if jtype operator = J_AND then G_AND else G_NAND) left right p1 of
                (node, p2) \<Rightarrow> andExpressionLoop node p2))
      else implicitAndLoop left p)"
| "implicitAndLoop left p =
     (if j_check p J_VARIABLE \<or> j_check p J_LPAREN \<or> j_check p J_CONSTANT then
        (case unary p of
           Inl e \<Rightarrow> Inl e
         | Inr (right, p1) \<Rightarrow>
             (case newBinaryNode G_AND left right p1 of
                (node, p2) \<Rightarrow> implicitAndLoop node p2))
      else Inr (left, p))"
| "unary p =
     (if j_check p J_NOT then
        (case unary (j_advance p) of
           Inl e \<Rightarrow> Inl e
         | Inr (operand, p1) \<Rightarrow> Inr (newNotNode operand p1))
      else
        (case primary p of
           Inl e \<Rightarrow> Inl e
         | Inr (node, p1) \<Rightarrow> Inr (postfixWhile node p1)))"
| "primary p =
     (if j_check p J_CONSTANT then
        (let token = j_peek p in
         case generateId (j_advance p) of
           (i, p1) \<Rightarrow> Inr (ConstantNode (if truthy (jvalue token) then 1 else 0) i, p1))
      else if j_check p J_VARIABLE then
        (let token = j_peek p in
         case generateId (j_advance p) of
           (i, p1) \<Rightarrow> Inr (VariableNode (stringOf (jvalue token)) i, p1))
      else if j_check p J_LPAREN then
        (case orExpression (j_advance p) of
           Inl e \<Rightarrow> Inl e
         | Inr (expr, p1) \<Rightarrow>
             if j_check p1 J_RPAREN then Inr (expr, j_advance p1)
             else Inl (ParserError ExpectedRParenAfterExpression (j_peek p1)))
      else
        Inl (ParserError (ExpectedVariableConstantOrLParen (jvalue (j_peek p))) (j_peek p)))"
  by pat_completeness auto


abbreviation (input) "jparse_dom \<equiv> orExpression_orExpressionLoop_xorExpression_xorExpressionLoop_andExpression_andExpressionLoop_implicitAndLoop_unary_primary_dom"

lemma j_advance_shrinks: "j_check p ty \<Longrightarrow> length (jtokens (j_advance p)) < length (jtokens p)"
  by (auto simp add: j_check_def j_advance_def j_isAtEnd_def split: list.splits if_splits)

lemma j_advance_le: "length (jtokens (j_advance p)) \<le> length (jtokens p)"
  by (simp add: j_advance_def)

lemma generateId_jtokens: "generateId p = (i, p') \<Longrightarrow> jtokens p' = jtokens p"
  by (auto simp add: generateId_def)

lemma newBinaryNode_jtokens: "newBinaryNode g l r p = (n, p') \<Longrightarrow> jtokens p' = jtokens p"
  by (auto simp add: newBinaryNode_def generateId_def)

lemma newNotNode_jtokens: "newNotNode n p = (n', p') \<Longrightarrow> jtokens p' = jtokens p"
  by (auto simp add: newNotNode_def generateId_def)

lemma postfixWhile_jtokens:
  "postfixWhile n p = (n', p') \<Longrightarrow> length (jtokens p') \<le> length (jtokens p)"
proof (induction n p arbitrary: n' p' rule: postfixWhile.induct)
  case (1 node p)
  show ?case
  proof (cases "j_check p J_NOT \<and> jvalue (j_peek p) = StringValue [39]")
    case True
    obtain node1 p1 where c: "newNotNode node (j_advance p) = (node1, p1)"
      by (cases "newNotNode node (j_advance p)")
    with True "1.prems" have "postfixWhile node1 p1 = (n', p')"
      by (simp add: postfixWhile.simps [of node p])
    from "1.IH" [OF _ _ c [symmetric] this] True
    have "length (jtokens p') \<le> length (jtokens p1)" by blast
    moreover have "jtokens p1 = jtokens (j_advance p)" using c by (rule newNotNode_jtokens)
    ultimately show ?thesis using j_advance_le [of p] by simp
  next
    case False
    with "1.prems" show ?thesis by (auto simp add: postfixWhile.simps [of node p] split: if_splits)
  qed
qed

lemma jparse_shrinks_partial:
  "jparse_dom (Inl (Inl (Inl p))) \<Longrightarrow>
     (\<forall>a p'. orExpression p = Inr (a, p') \<longrightarrow> length (jtokens p') < length (jtokens p))"
  "jparse_dom (Inl (Inl (Inr (l, p)))) \<Longrightarrow>
     (\<forall>a p'. orExpressionLoop l p = Inr (a, p') \<longrightarrow> length (jtokens p') \<le> length (jtokens p))"
  "jparse_dom (Inl (Inr (Inl p))) \<Longrightarrow>
     (\<forall>a p'. xorExpression p = Inr (a, p') \<longrightarrow> length (jtokens p') < length (jtokens p))"
  "jparse_dom (Inl (Inr (Inr (l, p)))) \<Longrightarrow>
     (\<forall>a p'. xorExpressionLoop l p = Inr (a, p') \<longrightarrow> length (jtokens p') \<le> length (jtokens p))"
  "jparse_dom (Inr (Inl (Inl p))) \<Longrightarrow>
     (\<forall>a p'. andExpression p = Inr (a, p') \<longrightarrow> length (jtokens p') < length (jtokens p))"
  "jparse_dom (Inr (Inl (Inr (l, p)))) \<Longrightarrow>
     (\<forall>a p'. andExpressionLoop l p = Inr (a, p') \<longrightarrow> length (jtokens p') \<le> length (jtokens p))"
  "jparse_dom (Inr (Inr (Inl (l, p)))) \<Longrightarrow>
     (\<forall>a p'. implicitAndLoop l p = Inr (a, p') \<longrightarrow> length (jtokens p') \<le> length (jtokens p))"
  "jparse_dom (Inr (Inr (Inr (Inl p)))) \<Longrightarrow>
     (\<forall>a p'. unary p = Inr (a, p') \<longrightarrow> length (jtokens p') < length (jtokens p))"
  "jparse_dom (Inr (Inr (Inr (Inr p)))) \<Longrightarrow>
     (\<forall>a p'. primary p = Inr (a, p') \<longrightarrow> length (jtokens p') < length (jtokens p))"
proof (induct rule: orExpression_orExpressionLoop_xorExpression_xorExpressionLoop_andExpression_andExpressionLoop_implicitAndLoop_unary_primary.pinduct)
  case (1 p)
  then show ?case
    by (fastforce simp add: orExpression.psimps split: sum.splits prod.splits)
next
  case (2 left p)
  show ?case
  proof (intro allI impI)
    fix a p' assume r: "orExpressionLoop left p = Inr (a, p')"
    show "length (jtokens p') \<le> length (jtokens p)"
    proof (cases "j_check p J_OR \<or> j_check p J_NOR")
      case True
      from r True 2(1) obtain right p1 node p2 where
        t: "xorExpression (j_advance p) = Inr (right, p1)"
        and c: "newBinaryNode (if jtype (j_peek p) = J_OR then G_OR else G_NOR) left right p1 = (node, p2)"
        and l: "orExpressionLoop node p2 = Inr (a, p')"
        by (auto simp add: orExpressionLoop.psimps Let_def split: sum.splits prod.splits)
      have "length (jtokens p1) < length (jtokens (j_advance p))"
        using 2(2) [OF True refl] t by blast
      moreover have "length (jtokens (j_advance p)) < length (jtokens p)"
        using True j_advance_shrinks by blast
      moreover have "jtokens p2 = jtokens p1" using c by (rule newBinaryNode_jtokens)
      moreover have "length (jtokens p') \<le> length (jtokens p2)"
        using 2(3) [OF True refl t refl c [symmetric]] l by blast
      ultimately show ?thesis by simp
    next
      case False
      with r 2(1) show ?thesis by (simp add: orExpressionLoop.psimps)
    qed
  qed
next
  case (3 p)
  then show ?case
    by (fastforce simp add: xorExpression.psimps split: sum.splits prod.splits)
next
  case (4 left p)
  show ?case
  proof (intro allI impI)
    fix a p' assume r: "xorExpressionLoop left p = Inr (a, p')"
    show "length (jtokens p') \<le> length (jtokens p)"
    proof (cases "j_check p J_XOR \<or> j_check p J_XNOR")
      case True
      from r True 4(1) obtain right p1 node p2 where
        t: "andExpression (j_advance p) = Inr (right, p1)"
        and c: "newBinaryNode (if jtype (j_peek p) = J_XOR then G_XOR else G_XNOR) left right p1 = (node, p2)"
        and l: "xorExpressionLoop node p2 = Inr (a, p')"
        by (auto simp add: xorExpressionLoop.psimps Let_def split: sum.splits prod.splits)
      have "length (jtokens p1) < length (jtokens (j_advance p))"
        using 4(2) [OF True refl] t by blast
      moreover have "length (jtokens (j_advance p)) < length (jtokens p)"
        using True j_advance_shrinks by blast
      moreover have "jtokens p2 = jtokens p1" using c by (rule newBinaryNode_jtokens)
      moreover have "length (jtokens p') \<le> length (jtokens p2)"
        using 4(3) [OF True refl t refl c [symmetric]] l by blast
      ultimately show ?thesis by simp
    next
      case False
      with r 4(1) show ?thesis by (simp add: xorExpressionLoop.psimps)
    qed
  qed
next
  case (5 p)
  then show ?case
    by (fastforce simp add: andExpression.psimps split: sum.splits prod.splits)
next
  case (6 left p)
  show ?case
  proof (intro allI impI)
    fix a p' assume r: "andExpressionLoop left p = Inr (a, p')"
    show "length (jtokens p') \<le> length (jtokens p)"
    proof (cases "j_check p J_AND \<or> j_check p J_NAND")
      case True
      from r True 6(1) obtain right p1 node p2 where
        t: "unary (j_advance p) = Inr (right, p1)"
        and c: "newBinaryNode (if jtype (j_peek p) = J_AND then G_AND else G_NAND) left right p1 = (node, p2)"
        and l: "andExpressionLoop node p2 = Inr (a, p')"
        by (auto simp add: andExpressionLoop.psimps Let_def split: sum.splits prod.splits)
      have "length (jtokens p1) < length (jtokens (j_advance p))"
        using 6(2) [OF True refl] t by blast
      moreover have "length (jtokens (j_advance p)) < length (jtokens p)"
        using True j_advance_shrinks by blast
      moreover have "jtokens p2 = jtokens p1" using c by (rule newBinaryNode_jtokens)
      moreover have "length (jtokens p') \<le> length (jtokens p2)"
        using 6(3) [OF True refl t refl c [symmetric]] l by blast
      ultimately show ?thesis by simp
    next
      case False
      with r 6(1) have "implicitAndLoop left p = Inr (a, p')"
        by (simp add: andExpressionLoop.psimps)
      with 6(4) [OF False] show ?thesis by blast
    qed
  qed
next
  case (7 left p)
  show ?case
  proof (intro allI impI)
    fix a p' assume r: "implicitAndLoop left p = Inr (a, p')"
    show "length (jtokens p') \<le> length (jtokens p)"
    proof (cases "j_check p J_VARIABLE \<or> j_check p J_LPAREN \<or> j_check p J_CONSTANT")
      case True
      from r True 7(1) obtain right p1 node p2 where
        t: "unary p = Inr (right, p1)"
        and c: "newBinaryNode G_AND left right p1 = (node, p2)"
        and l: "implicitAndLoop node p2 = Inr (a, p')"
        by (auto simp add: implicitAndLoop.psimps Let_def split: sum.splits prod.splits)
      have "length (jtokens p1) < length (jtokens p)"
        using 7(2) [OF True] t by blast
      moreover have "jtokens p2 = jtokens p1" using c by (rule newBinaryNode_jtokens)
      moreover have "length (jtokens p') \<le> length (jtokens p2)"
        using 7(3) [OF True t refl c [symmetric]] l by blast
      ultimately show ?thesis by simp
    next
      case False
      with r 7(1) show ?thesis by (simp add: implicitAndLoop.psimps)
    qed
  qed
next
  case (8 p)
  show ?case
  proof (intro allI impI)
    fix a p' assume r: "unary p = Inr (a, p')"
    show "length (jtokens p') < length (jtokens p)"
    proof (cases "j_check p J_NOT")
      case True
      from r True 8(1) obtain operand p1 where
        t: "unary (j_advance p) = Inr (operand, p1)"
        and c: "newNotNode operand p1 = (a, p')"
        by (auto simp add: unary.psimps split: sum.splits prod.splits)
      have "length (jtokens p1) < length (jtokens (j_advance p))"
        using 8(2) [OF True] t by blast
      moreover have "length (jtokens (j_advance p)) < length (jtokens p)"
        using True j_advance_shrinks by blast
      moreover have "jtokens p' = jtokens p1" using c by (rule newNotNode_jtokens)
      ultimately show ?thesis by simp
    next
      case False
      from r False 8(1) obtain node p1 where
        t: "primary p = Inr (node, p1)"
        and c: "postfixWhile node p1 = (a, p')"
        by (auto simp add: unary.psimps split: sum.splits prod.splits)
      have "length (jtokens p1) < length (jtokens p)"
        using 8(3) [OF False] t by blast
      moreover have "length (jtokens p') \<le> length (jtokens p1)"
        using c by (rule postfixWhile_jtokens)
      ultimately show ?thesis by simp
    qed
  qed
next
  case (9 p)
  show ?case
  proof (intro allI impI)
    fix a p' assume r: "primary p = Inr (a, p')"
    show "length (jtokens p') < length (jtokens p)"
    proof (cases "j_check p J_CONSTANT \<or> j_check p J_VARIABLE")
      case True
      then have "length (jtokens (j_advance p)) < length (jtokens p)"
        using j_advance_shrinks by blast
      with r True 9(1) show ?thesis
        by (auto simp add: primary.psimps Let_def generateId_def split: if_splits)
    next
      case False
      show ?thesis
      proof (cases "j_check p J_LPAREN")
        case True
        from r True False 9(1) obtain expr p1 where
          t: "orExpression (j_advance p) = Inr (expr, p1)"
          and c: "j_check p1 J_RPAREN" and e: "p' = j_advance p1"
          by (auto simp add: primary.psimps Let_def split: sum.splits prod.splits if_splits)
        have "length (jtokens p1) < length (jtokens (j_advance p))"
          using 9(2) [OF _ _ True] False t by blast
        moreover have "length (jtokens (j_advance p)) < length (jtokens p)"
          using True j_advance_shrinks by blast
        moreover have "length (jtokens p') < length (jtokens p1)"
          using c e j_advance_shrinks by blast
        ultimately show ?thesis by simp
      next
        case nl: False
        with r False 9(1) show ?thesis
          by (auto simp add: primary.psimps Let_def)
      qed
    qed
  qed
qed

lemmas jshrinkD = jparse_shrinks_partial [rule_format]

lemma jshrink_after_advance:
  "jparse_dom (Inl (Inr (Inl (j_advance p)))) \<Longrightarrow> xorExpression (j_advance p) = Inr (a, p')
     \<Longrightarrow> length (jtokens p') < length (jtokens p)"
  "jparse_dom (Inr (Inl (Inl (j_advance p)))) \<Longrightarrow> andExpression (j_advance p) = Inr (a, p')
     \<Longrightarrow> length (jtokens p') < length (jtokens p)"
  "jparse_dom (Inr (Inr (Inr (Inl (j_advance p))))) \<Longrightarrow> unary (j_advance p) = Inr (a, p')
     \<Longrightarrow> length (jtokens p') < length (jtokens p)"
  using jshrinkD(3,5,8) [of "j_advance p" a p'] j_advance_le [of p] by simp_all

definition jparse_measure ::
  "((JParser + JNode \<times> JParser) + (JParser + JNode \<times> JParser))
     + ((JParser + JNode \<times> JParser) + (JNode \<times> JParser + (JParser + JParser)))
   \<Rightarrow> nat \<times> nat" where
  "jparse_measure x = (case x of
       Inl (Inl (Inl p)) \<Rightarrow> (length (jtokens p), 8::nat)
     | Inl (Inl (Inr (l, p))) \<Rightarrow> (length (jtokens p), 7)
     | Inl (Inr (Inl p)) \<Rightarrow> (length (jtokens p), 6)
     | Inl (Inr (Inr (l, p))) \<Rightarrow> (length (jtokens p), 5)
     | Inr (Inl (Inl p)) \<Rightarrow> (length (jtokens p), 4)
     | Inr (Inl (Inr (l, p))) \<Rightarrow> (length (jtokens p), 3)
     | Inr (Inr (Inl (l, p))) \<Rightarrow> (length (jtokens p), 2)
     | Inr (Inr (Inr (Inl p))) \<Rightarrow> (length (jtokens p), 1)
     | Inr (Inr (Inr (Inr p))) \<Rightarrow> (length (jtokens p), 0))"

termination orExpression
  apply (relation "inv_image (less_than <*lex*> less_than) jparse_measure")
  subgoal by (intro wf_inv_image wf_lex_prod wf_less_than)
  apply (auto simp add: jparse_measure_def newBinaryNode_def generateId_def
      dest: jshrinkD j_advance_shrinks jshrink_after_advance intro: j_advance_shrinks)
  done

declare orExpression.simps [simp del] orExpressionLoop.simps [simp del]
  xorExpression.simps [simp del] xorExpressionLoop.simps [simp del]
  andExpression.simps [simp del] andExpressionLoop.simps [simp del]
  implicitAndLoop.simps [simp del] unary.simps [simp del] primary.simps [simp del]

text \<open>
  \<^verbatim>\<open>Parser.parse\<close>: \<^verbatim>\<open>ASTNode.resetIds()\<close>, the expression, and the check for trailing
  tokens.  \<open>jsParseString\<close> runs the lexer and the parser as \<^verbatim>\<open>processExpression\<close> does,
  from a given value of the static counter.
\<close>

definition jsParse :: "JParser \<Rightarrow> jerror + JNode \<times> JParser" where
  "jsParse p =
     (case orExpression (p\<lparr>idCounter := 0\<rparr>) of
        Inl e \<Rightarrow> Inl e
      | Inr (ast, p1) \<Rightarrow>
          if \<not> j_isAtEnd p1
          then Inl (ParserError (UnexpectedTokenAfterExpression (jvalue (j_peek p1))) (j_peek p1))
          else Inr (ast, p1))"

lemmas jparser_simps = jsParse_def orExpression.simps orExpressionLoop.simps
  xorExpression.simps xorExpressionLoop.simps andExpression.simps andExpressionLoop.simps
  implicitAndLoop.simps unary.simps primary.simps postfixWhile.simps j_check_def
  j_isAtEnd_def j_peek_def j_advance_def newBinaryNode_def newNotNode_def generateId_def
  truthy_def stringOf_def

definition jsParseString :: "nat \<Rightarrow> jsstring \<Rightarrow> jerror + JNode \<times> JParser" where
  "jsParseString c input =
     (case jsTokenize input of
        Inl e \<Rightarrow> Inl e
      | Inr toks \<Rightarrow> jsParse \<lparr>jtokens = toks, idCounter = c\<rparr>)"

section \<open>Chains of NOT nodes\<close>

text \<open>
  \<open>notChain nanoid node i k\<close> is \<open>node\<close> wrapped in \<open>k\<close> NOT nodes of the engine, where the
  innermost has the id \<open>nanoid i\<close> and the outermost the id \<open>nanoid (i + k - 1)\<close>;
  \<open>jnotChain node c k\<close> is the same for the client library when the static counter stands
  at \<open>c\<close>, so that the ids are \<open>c + 1, ..., c + k\<close>.
\<close>

fun notChain :: "(nat \<Rightarrow> jsstring) \<Rightarrow> ASTNode \<Rightarrow> nat \<Rightarrow> nat \<Rightarrow> ASTNode" where
  "notChain nanoid node i 0 = node"
| "notChain nanoid node i (Suc k) = ASTUnaryOp (notChain nanoid node i k) (nanoid (i + k))"

fun jnotChain :: "JNode \<Rightarrow> nat \<Rightarrow> nat \<Rightarrow> JNode" where
  "jnotChain node c 0 = node"
| "jnotChain node c (Suc k) = NotNode (jnotChain node c k) (Suc (c + k))"

section \<open>Trees without identifiers\<close>

text \<open>
  \<open>eraseIds\<close> replaces every \<^verbatim>\<open>id\<close> of a tree of the engine by the empty string;
  \<open>eraseResult\<close> keeps of a parser result the error, or the tree without its ids, the
  remaining tokens and the variables; two parser states have the \<open>sameInput\<close> if they
  differ at most in the number of ids drawn so far.
\<close>

fun eraseIds :: "ASTNode \<Rightarrow> ASTNode" where
  "eraseIds (ASTVariable name _) = ASTVariable name []"
| "eraseIds (ASTLiteral v _) = ASTLiteral v []"
| "eraseIds (ASTUnaryOp operand _) = ASTUnaryOp (eraseIds operand) []"
| "eraseIds (ASTBinaryOp ty l r _) = ASTBinaryOp ty (eraseIds l) (eraseIds r) []"

definition eraseResult ::
  "error + ASTNode \<times> Parser \<Rightarrow> error + ASTNode \<times> Token list \<times> jsstring list" where
  "eraseResult r = map_sum id (\<lambda>(a, p). (eraseIds a, tokens p, pvariables p)) r"

definition sameInput :: "Parser \<Rightarrow> Parser \<Rightarrow> bool" where
  "sameInput p p' \<longleftrightarrow> tokens p' = tokens p \<and> pvariables p' = pvariables p"

section \<open>The JavaScript client library: the Quine-McCluskey simplifier\<close>




















































section \<open>The reading of a sum of products\<close>






section \<open>Properties of the truth table generator\<close>

text \<open>
  C9: for every variable list and every binding, \<^verbatim>\<open>getMaxtermNumber\<close> returns exactly
  the value of \<^verbatim>\<open>getMintermNumber\<close> and applies no complement, while the rows of a
  generated table store \<open>2^n - 1 - minterm\<close> in their \<^verbatim>\<open>maxterm\<close> field: in the example
  the row stores 2 where the utility returns 1.
\<close>

theorem getMaxtermNumber_is_getMintermNumber:
  "getMaxtermNumber binding vars = getMintermNumber binding vars
   \<and> buildRow (ASTLiteral True []) [js ''A'', js ''B''] (combination [js ''A'', js ''B''] 1)
       = Inr \<lparr>inputs = combination [js ''A'', js ''B''] 1, output_value = BoolVal True, minterm = 1, maxterm = 2\<rparr>
   \<and> getMaxtermNumber (combination [js ''A'', js ''B''] 1) [js ''A'', js ''B''] = 1"
  by (simp add: getMaxtermNumber_def getMintermNumber_def buildRow_def combination_def
        setProperty_def getProperty_def toBoolean_def js_def)

lemma fold_setProperty:
  assumes "js ''__proto__'' \<notin> set vs" "set idxs \<subseteq> {..<length vs}"
  shows "fold (\<lambda>j b. setProperty b (vs ! j) (f j)) idxs m = fold (\<lambda>j b. b(vs ! j \<mapsto> f j)) idxs m"
proof (rule fold_cong [OF refl refl])
  fix j assume "j \<in> set idxs"
  with assms(2) have "vs ! j \<in> set vs" by auto
  with assms(1) have "vs ! j \<noteq> js ''__proto__''" by auto
  then show "(\<lambda>b. setProperty b (vs ! j) (f j)) = (\<lambda>b. b(vs ! j \<mapsto> f j))"
    unfolding setProperty_def by simp
qed

lemma fold_upd_lookup:
  assumes "distinct vs" "k < length vs" "set idxs \<subseteq> {..<length vs}"
  shows "fold (\<lambda>j b. b(vs ! j \<mapsto> f j)) idxs m (vs ! k)
         = (if k \<in> set idxs then Some (f k) else m (vs ! k))"
  using assms(3)
proof (induction idxs arbitrary: m)
  case Nil
  then show ?case by simp
next
  case (Cons j idxs)
  have j: "j < length vs" using Cons.prems by simp
  have eq: "vs ! j = vs ! k \<longleftrightarrow> j = k"
    using assms(1,2) j by (simp add: nth_eq_iff_index_eq)
  show ?case using Cons eq by auto
qed

lemma fold_upd_dom:
  "dom (fold (\<lambda>j b. b(vs ! j \<mapsto> f j)) idxs m) = dom m \<union> (\<lambda>j. vs ! j) ` set idxs"
  by (induction idxs arbitrary: m) auto

lemma combination_update:
  assumes "js ''__proto__'' \<notin> set vs"
  shows "combination vs i
         = fold (\<lambda>j b. b(vs ! j \<mapsto> bit (word_of_nat i :: 32 word) ((length vs - 1 - j) mod 32)))
             [0..<length vs] Map.empty"
proof -
  have "set [0..<length vs] \<subseteq> {..<length vs}" by auto
  from fold_setProperty [OF assms this] show ?thesis
    by (simp add: combination_def Let_def)
qed

lemma combination_lookup:
  assumes "distinct vs" "j < length vs" "js ''__proto__'' \<notin> set vs"
  shows "combination vs i (vs ! j)
         = Some (bit (word_of_nat i :: 32 word) ((length vs - 1 - j) mod 32))"
proof -
  have "set [0..<length vs] \<subseteq> {..<length vs}" by auto
  from fold_upd_lookup [OF assms(1,2) this,
      of "\<lambda>j. bit (word_of_nat i :: 32 word) ((length vs - 1 - j) mod 32)" Map.empty]
  show ?thesis
    using assms(2) by (simp add: combination_update [OF assms(3)])
qed

lemma combination_dom: "js ''__proto__'' \<notin> set vs \<Longrightarrow> dom (combination vs i) = set vs"
proof -
  assume p: "js ''__proto__'' \<notin> set vs"
  have "(\<lambda>j. vs ! j) ` set [0..<length vs] = set vs"
    by (metis map_nth set_map)
  then show ?thesis
    by (simp add: combination_update [OF p] fold_upd_dom)
qed

lemma evaluate_total:
  "node_variables ast \<subseteq> dom b \<Longrightarrow> \<exists>v. evaluate ast b = Inr (BoolVal v)"
proof (induction ast)
  case (ASTVariable name i)
  then show ?case by (auto simp add: getProperty_def)
next
  case (ASTBinaryOp ty l r i)
  then obtain a c where "evaluate l b = Inr (BoolVal a)" "evaluate r b = Inr (BoolVal c)" by auto
  then show ?case by (cases ty) (auto simp add: toBoolean_def)
qed auto

lemma fold_or_bit:
  assumes "k < 32"
  shows "bit (fold (\<lambda>i (w :: 32 word). if c i then w OR push_bit (sh i) 1 else w) idxs acc) k
         \<longleftrightarrow> bit acc k \<or> (\<exists>i \<in> set idxs. c i \<and> sh i = k)"
  using assms
proof (induction idxs arbitrary: acc)
  case Nil
  then show ?case by simp
next
  case (Cons j idxs)
  show ?case
    using Cons.prems by (auto simp add: Cons.IH bit_or_iff bit_push_bit_iff bit_1_iff bit_exp_iff)
qed

lemma getMintermNumber_combination:
  assumes d: "distinct vs" and n: "length vs \<le> 8" and i: "i < 2 ^ length vs"
    and p: "js ''__proto__'' \<notin> set vs"
  shows "getMintermNumber (combination vs i) vs = int i"
proof -
  let ?n = "length vs"
  let ?c = "\<lambda>j. case getProperty (combination vs i) (vs ! j) of
                   Some v \<Rightarrow> toBoolean v | None \<Rightarrow> False"
  let ?w = "fold (\<lambda>j (w :: 32 word).
                   if ?c j then w OR push_bit ((?n - 1 - j) mod 32) 1 else w) [0..<?n] 0"
  have i256: "i < 2 ^ 8"
    using i n by (meson less_le_trans one_le_numeral power_increasing)
  have c: "?c j \<longleftrightarrow> bit (word_of_nat i :: 32 word) ((?n - 1 - j) mod 32)" if "j < ?n" for j
    using that by (simp add: getProperty_def toBoolean_def combination_lookup [OF d _ p])
  have "?w = word_of_nat i"
  proof (rule bit_word_eqI)
    fix k assume "k < LENGTH(32)"
    then have k: "k < 32" by simp
    have "bit ?w k \<longleftrightarrow> (\<exists>j \<in> set [0..<?n]. ?c j \<and> (?n - 1 - j) mod 32 = k)"
      using fold_or_bit [OF k, of ?c "\<lambda>j. (?n - 1 - j) mod 32" "[0..<?n]" 0]
      by simp
    also have "\<dots> \<longleftrightarrow> (\<exists>j < ?n. bit (word_of_nat i :: 32 word) k \<and> ?n - 1 - j = k)"
      using n c by auto
    also have "\<dots> \<longleftrightarrow> k < ?n \<and> bit (word_of_nat i :: 32 word) k"
    proof
      assume "\<exists>j < ?n. bit (word_of_nat i :: 32 word) k \<and> ?n - 1 - j = k"
      then show "k < ?n \<and> bit (word_of_nat i :: 32 word) k" by auto
    next
      assume a: "k < ?n \<and> bit (word_of_nat i :: 32 word) k"
      then have "?n - 1 - k < ?n" "?n - 1 - (?n - 1 - k) = k" by auto
      with a show "\<exists>j < ?n. bit (word_of_nat i :: 32 word) k \<and> ?n - 1 - j = k" by blast
    qed
    also have "\<dots> \<longleftrightarrow> bit (word_of_nat i :: 32 word) k"
    proof -
      have "bit (word_of_nat i :: 32 word) k \<Longrightarrow> k < ?n"
      proof (rule ccontr)
        assume b: "bit (word_of_nat i :: 32 word) k" and "\<not> k < ?n"
        then have "2 ^ ?n \<le> (2::nat) ^ k" by (simp add: power_increasing)
        with i have "i < 2 ^ k" by (rule less_le_trans)
        then have "\<not> bit i k" by (simp add: bit_iff_odd)
        with b show False by (simp add: bit_of_nat_iff)
      qed
      then show ?thesis by blast
    qed
    finally show "bit ?w k \<longleftrightarrow> bit (word_of_nat i :: 32 word) k" .
  qed
  moreover have "sint (word_of_nat i :: 32 word) = int i"
  proof -
    have "int i < 2 ^ 31" using i256 by simp
    moreover have "- (2 ^ 31) \<le> int i" by simp
    ultimately have "signed_take_bit 31 (int i) = int i"
      by (rule signed_take_bit_int_eq_self [rotated])
    then show ?thesis by (simp add: signed_of_nat)
  qed
  ultimately show ?thesis by (simp add: getMintermNumber_def)
qed

lemma map_via_nth: "map f xs = map (\<lambda>i. f (xs ! i)) [0..<length xs]"
  by (rule nth_equalityI) auto

lemma mapE_all_Inr:
  "\<forall>x \<in> set xs. \<exists>y. f x = Inr y \<Longrightarrow> mapE f xs = Inr (map (\<lambda>x. projr (f x)) xs)"
  by (induction xs) auto

lemma buildRow_combination:
  assumes d: "distinct vs" and n: "length vs \<le> 8" and i: "i < 2 ^ length vs"
    and v: "node_variables ast \<subseteq> set vs" and p: "js ''__proto__'' \<notin> set vs"
  shows "\<exists>out. evaluate ast (combination vs i) = Inr (BoolVal out)
           \<and> buildRow ast vs (combination vs i)
               = Inr \<lparr>inputs = combination vs i, output_value = BoolVal out, minterm = int i,
                       maxterm = 2 ^ length vs - 1 - int i\<rparr>"
proof -
  from v obtain out where "evaluate ast (combination vs i) = Inr (BoolVal out)"
    using evaluate_total [of ast "combination vs i"] by (auto simp add: combination_dom [OF p])
  then show ?thesis
    by (simp add: buildRow_def Let_def getMintermNumber_combination [OF d n i p])
qed

text \<open>
  C2, as amended: for every tree whose variables all occur in the variable list, and every
  variable list of length \<open>n \<le> 8\<close> without repeated names and without the name
  \<^verbatim>\<open>__proto__\<close>, \<^verbatim>\<open>generateTruthTable\<close> returns a table of exactly \<open>2^n\<close> rows; row \<open>i\<close> has
  minterm \<open>i\<close> and maxterm \<open>2^n - 1 - i\<close>, binds \<^verbatim>\<open>variables[j]\<close> to bit \<open>n - 1 - j\<close> of \<open>i\<close>
  (so \<^verbatim>\<open>variables[0]\<close> is the most significant bit), and its output is the boolean value
  of the tree under that binding.
\<close>

theorem generateTruthTable_rows:
  assumes d: "distinct vs" and n: "length vs \<le> 8"
    and v: "node_variables ast \<subseteq> set vs" and p: "js ''__proto__'' \<notin> set vs"
  shows "\<exists>t. generateTruthTable ast vs e = Inr t
           \<and> length (rows t) = 2 ^ length vs
           \<and> (\<forall>i < 2 ^ length vs.
                 minterm (rows t ! i) = int i
               \<and> maxterm (rows t ! i) = 2 ^ length vs - 1 - int i
               \<and> (\<forall>j < length vs.
                     inputs (rows t ! i) (vs ! j) = Some (bit i (length vs - 1 - j))
                   \<and> getProperty (inputs (rows t ! i)) (vs ! j)
                       = Some (BoolVal (bit i (length vs - 1 - j))))
               \<and> evaluate ast (inputs (rows t ! i)) = Inr (output_value (rows t ! i))
               \<and> (\<exists>b. output_value (rows t ! i) = BoolVal b))"
proof -
  let ?rs = "map (\<lambda>x. projr (buildRow ast vs x)) (generateCombinations vs)"
  have all: "\<forall>x \<in> set (generateCombinations vs). \<exists>y. buildRow ast vs x = Inr y"
  proof
    fix x assume "x \<in> set (generateCombinations vs)"
    then obtain i where "i < 2 ^ length vs" "x = combination vs i"
      by (auto simp add: generateCombinations_def)
    then show "\<exists>y. buildRow ast vs x = Inr y"
      using buildRow_combination [OF d n _ v p, of i] by auto
  qed
  have gen: "generateTruthTable ast vs e = Inr \<lparr>variables = vs, rows = ?rs, expression = e\<rparr>"
    using n by (simp add: generateTruthTable_def MAX_VARIABLES_def mapE_all_Inr [OF all])
  have len: "length ?rs = 2 ^ length vs"
    by (simp add: generateCombinations_def)
  have row: "minterm (?rs ! i) = int i
               \<and> maxterm (?rs ! i) = 2 ^ length vs - 1 - int i
               \<and> (\<forall>j < length vs.
                     inputs (?rs ! i) (vs ! j) = Some (bit i (length vs - 1 - j))
                   \<and> getProperty (inputs (?rs ! i)) (vs ! j)
                       = Some (BoolVal (bit i (length vs - 1 - j))))
               \<and> evaluate ast (inputs (?rs ! i)) = Inr (output_value (?rs ! i))
               \<and> (\<exists>b. output_value (?rs ! i) = BoolVal b)"
    if i: "i < 2 ^ length vs" for i
  proof -
    obtain out where ev: "evaluate ast (combination vs i) = Inr (BoolVal out)"
      and br: "buildRow ast vs (combination vs i)
               = Inr \<lparr>inputs = combination vs i, output_value = BoolVal out, minterm = int i,
                       maxterm = 2 ^ length vs - 1 - int i\<rparr>"
      using buildRow_combination [OF d n i v p] by blast
    have nth: "?rs ! i = \<lparr>inputs = combination vs i, output_value = BoolVal out, minterm = int i,
                       maxterm = 2 ^ length vs - 1 - int i\<rparr>"
      using i br by (simp add: generateCombinations_def)
    have bits: "inputs (?rs ! i) (vs ! j) = Some (bit i (length vs - 1 - j))"
      if j: "j < length vs" for j
    proof -
      have "length vs - 1 - j < 32" using n j by simp
      then show ?thesis
        using j by (simp add: nth combination_lookup [OF d j p] bit_of_nat_iff)
    qed
    then have "getProperty (inputs (?rs ! i)) (vs ! j) = Some (BoolVal (bit i (length vs - 1 - j)))"
      if j: "j < length vs" for j
      using j by (simp add: getProperty_def)
    with bits ev show ?thesis by (simp add: nth)
  qed
  show ?thesis using gen len row by simp
qed

text \<open>The theorem at the tree \<open>B\<close> over the variables \<open>A, B\<close>.\<close>

theorem generateTruthTable_rows_witness:
  "\<exists>t. generateTruthTable (ASTVariable (js ''B'') []) [js ''A'', js ''B''] [] = Inr t
      \<and> length (rows t) = 4
      \<and> map minterm (rows t) = [0, 1, 2, 3]
      \<and> map maxterm (rows t) = [3, 2, 1, 0]
      \<and> map output_value (rows t) = [BoolVal False, BoolVal True, BoolVal False, BoolVal True]"
proof -
  have d: "distinct [js ''A'', js ''B'']" by (simp add: js_def)
  have n: "length [js ''A'', js ''B''] \<le> 8" by simp
  have v: "node_variables (ASTVariable (js ''B'') []) \<subseteq> set [js ''A'', js ''B'']" by simp
  have p: "js ''__proto__'' \<notin> set [js ''A'', js ''B'']" by (simp add: js_def)
  from generateTruthTable_rows [OF d n v p, of "[]"]
  obtain t where t: "generateTruthTable (ASTVariable (js ''B'') []) [js ''A'', js ''B''] [] = Inr t"
    and len: "length (rows t) = 4"
    and r: "\<forall>i < 4. minterm (rows t ! i) = int i \<and> maxterm (rows t ! i) = 3 - int i
            \<and> (\<forall>j < 2. inputs (rows t ! i) ([js ''A'', js ''B''] ! j) = Some (bit i (1 - j))
                 \<and> getProperty (inputs (rows t ! i)) ([js ''A'', js ''B''] ! j)
                     = Some (BoolVal (bit i (1 - j))))
            \<and> evaluate (ASTVariable (js ''B'') []) (inputs (rows t ! i)) = Inr (output_value (rows t ! i))
            \<and> (\<exists>b. output_value (rows t ! i) = BoolVal b)"
    by auto
  have rows: "map f (rows t) = map (\<lambda>i. f (rows t ! i)) [0, 1, 2, 3]" for f :: "TruthTableRow \<Rightarrow> 'b"
    using map_via_nth [of f "rows t"] len by (simp add: upt_rec numeral_2_eq_2 numeral_3_eq_3)
  have m: "map minterm (rows t) = [0, 1, 2, 3]" "map maxterm (rows t) = [3, 2, 1, 0]"
    using r by (simp_all add: rows)
  have o: "map output_value (rows t) = [BoolVal False, BoolVal True, BoolVal False, BoolVal True]"
  proof -
    have "output_value (rows t ! i) = BoolVal (bit i 0)" if "i < 4" for i
    proof -
      from r that
      have a: "\<forall>j < 2. inputs (rows t ! i) ([js ''A'', js ''B''] ! j) = Some (bit i (1 - j))
                 \<and> getProperty (inputs (rows t ! i)) ([js ''A'', js ''B''] ! j)
                     = Some (BoolVal (bit i (1 - j)))"
        and b: "evaluate (ASTVariable (js ''B'') []) (inputs (rows t ! i)) = Inr (output_value (rows t ! i))"
        by blast+
      from a have "getProperty (inputs (rows t ! i)) ([js ''A'', js ''B''] ! 1) = Some (BoolVal (bit i (1 - 1)))"
        by (rule allE [of _ "1::nat"]) simp
      then have "getProperty (inputs (rows t ! i)) (js ''B'') = Some (BoolVal (bit i 0))" by simp
      with b show ?thesis by simp
    qed
    then show ?thesis by (simp add: rows bit_0)
  qed
  show ?thesis by (rule exI [of _ t]) (simp add: t len m o)
qed

text \<open>
  Without the side conditions the statement fails: a tree that mentions a variable
  absent from the list makes the generator throw; with the list \<open>A, A\<close> the rows carry the
  minterms 0, 3, 0, 3; and with the one name \<^verbatim>\<open>__proto__\<close> no binding is stored, the lookup
  finds the prototype object, and both rows carry minterm 1 and maxterm 0.
\<close>

theorem generateTruthTable_rows_counterexample:
  "generateTruthTable (ASTVariable (js ''B'') []) [js ''A''] [] = Inl (UndefinedVariable (js ''B''))
   \<and> map_sum id (map minterm \<circ> rows)
         (generateTruthTable (ASTVariable (js ''A'') []) [js ''A'', js ''A''] [])
       = Inr [0, 3, 0, 3]
   \<and> map_sum id (map (\<lambda>r. (dom (inputs r), minterm r, maxterm r)) \<circ> rows)
         (generateTruthTable (ASTLiteral True []) [js ''__proto__''] [])
       = Inr [({}, 1, 0), ({}, 1, 0)]"
  by (simp add: generateTruthTable_def MAX_VARIABLES_def generateCombinations_def
        combination_def buildRow_def getMintermNumber_def setProperty_def getProperty_def
        toBoolean_def objectPrototype_def js_def upt_rec)

section \<open>Properties of the lexers and parsers\<close>

text \<open>
  C10: there are inputs in which an explicit \<^verbatim>\<open>AND\<close> or \<^verbatim>\<open>NAND\<close> keyword follows an operand
  already joined by implicit AND, and parsing them fails with an "Unexpected token"
  error: the loop for juxtaposed operands runs after the loop for explicit operators and
  the latter is not entered again.  Both parsers reject \<^verbatim>\<open>A B AND C\<close> at the \<^verbatim>\<open>AND\<close> token
  (position 4).
\<close>

theorem parse_implicit_then_explicit_and:
  "parse nanoid (js ''A B AND C'') = Inl (ParseError (UnexpectedToken (js ''AND'')) 4 3)
   \<and> parse nanoid (js ''A B NAND C'') = Inl (ParseError (UnexpectedToken (js ''NAND'')) 4 4)
   \<and> map_sum id fst (jsParseString c (js ''A B AND C'')) =
       Inl (ParserError (UnexpectedTokenAfterExpression (StringValue (js ''AND'')))
             \<lparr>jtype = J_AND, jvalue = StringValue (js ''AND''), jposition = 4\<rparr>)"
  by (simp add: lexer_simps parser_simps jsParseString_def jlexer_simps jparser_simps)

subsection \<open>Prefix and postfix NOT\<close>

lemma notChain_inner:
  "notChain g (ASTUnaryOp node (g i)) (Suc i) k = notChain g node i (Suc k)"
  by (induction k) auto

lemma jnotChain_inner:
  "jnotChain (NotNode node (Suc c)) (Suc c) k = jnotChain node c (Suc k)"
  by (induction k) auto

lemma postfixLoop_chain:
  assumes "tokens p = primes @ rest"
    and "\<forall>t \<in> set primes. tok_type t = T_NOT \<and> tok_value t = [39]"
    and "\<not> (check (p\<lparr>tokens := rest\<rparr>) T_NOT \<and> tok_value (hd rest) = [39])"
  shows "postfixLoop g node p
         = (notChain g node (ids p) (length primes),
            p\<lparr>tokens := rest, ids := ids p + length primes\<rparr>)"
  using assms
proof (induction primes arbitrary: node p)
  case Nil
  from Nil.prems(1) have e: "p\<lparr>tokens := rest\<rparr> = p" "hd rest = peek p"
    by (simp_all add: peek_def)
  from Nil.prems(3) have "\<not> (check p T_NOT \<and> tok_value (peek p) = [39])"
    unfolding e .
  then have "postfixLoop g node p = (node, p)"
    by (subst postfixLoop.simps) auto
  then show ?case using e(1) by simp
next
  case (Cons t primes)
  let ?p1 = "p\<lparr>tokens := primes @ rest, ids := Suc (ids p)\<rparr>"
  have c: "check p T_NOT \<and> tok_value (peek p) = [39]"
    using Cons.prems by (simp add: check_def isAtEnd_def peek_def)
  have a: "createUnaryNode g node (advance p) = (ASTUnaryOp node (g (ids p)), ?p1)"
    using Cons.prems by (simp add: createUnaryNode_def advance_def isAtEnd_def)
  have "postfixLoop g (ASTUnaryOp node (g (ids p))) ?p1
        = (notChain g (ASTUnaryOp node (g (ids p))) (ids ?p1) (length primes),
           ?p1\<lparr>tokens := rest, ids := ids ?p1 + length primes\<rparr>)"
    by (rule Cons.IH) (use Cons.prems in \<open>simp_all add: check_def isAtEnd_def peek_def\<close>)
  moreover have "postfixLoop g node p = postfixLoop g (ASTUnaryOp node (g (ids p))) ?p1"
    by (subst postfixLoop.simps) (simp add: c a)
  ultimately show ?case
    by (simp add: notChain_inner del: notChain.simps)
qed

lemma parseUnary_prefix_chain:
  assumes "\<forall>t \<in> set pre. tok_type t = T_NOT"
    and "parseUnary g q = Inr (operand, q1)"
  shows "parseUnary g (q\<lparr>tokens := pre @ tokens q\<rparr>)
         = Inr (notChain g operand (ids q1) (length pre), q1\<lparr>ids := ids q1 + length pre\<rparr>)"
  using assms(1)
proof (induction pre)
  case Nil
  then show ?case using assms(2) by simp
next
  case (Cons t pre)
  let ?p = "q\<lparr>tokens := t # pre @ tokens q\<rparr>"
  have c: "check ?p T_NOT" using Cons.prems by (simp add: check_def isAtEnd_def peek_def)
  have a: "advance ?p = q\<lparr>tokens := pre @ tokens q\<rparr>"
    using Cons.prems by (simp add: advance_def isAtEnd_def)
  have "parseUnary g (q\<lparr>tokens := pre @ tokens q\<rparr>)
         = Inr (notChain g operand (ids q1) (length pre), q1\<lparr>ids := ids q1 + length pre\<rparr>)"
    by (rule Cons.IH) (use Cons.prems in auto)
  moreover have "parseUnary g ?p =
      (case parseUnary g (advance ?p) of Inl e \<Rightarrow> Inl e
       | Inr (operand, p1) \<Rightarrow> Inr (createUnaryNode g operand p1))"
    by (subst parseUnary.simps) (simp only: c if_True)
  ultimately show ?case
    by (simp add: a createUnaryNode_def)
qed

lemma parseUnary_postfix_chain:
  assumes "\<not> check q T_NOT" and "parsePrimary g q = Inr (node, q1)"
    and "tokens q1 = primes @ rest"
    and "\<forall>t \<in> set primes. tok_type t = T_NOT \<and> tok_value t = [39]"
    and "\<not> (check (q1\<lparr>tokens := rest\<rparr>) T_NOT \<and> tok_value (hd rest) = [39])"
  shows "parseUnary g q
         = Inr (notChain g node (ids q1) (length primes),
                q1\<lparr>tokens := rest, ids := ids q1 + length primes\<rparr>)"
  using assms(1,2) postfixLoop_chain [OF assms(3,4,5), of g node]
  by (simp add: parseUnary.simps [of g q])

lemma postfixWhile_chain:
  assumes "jtokens p = primes @ rest"
    and "\<forall>t \<in> set primes. jtype t = J_NOT \<and> jvalue t = StringValue [39]"
    and "\<not> (j_check (p\<lparr>jtokens := rest\<rparr>) J_NOT \<and> jvalue (hd rest) = StringValue [39])"
  shows "postfixWhile node p
         = (jnotChain node (idCounter p) (length primes),
            p\<lparr>jtokens := rest, idCounter := idCounter p + length primes\<rparr>)"
  using assms
proof (induction primes arbitrary: node p)
  case Nil
  from Nil.prems(1) have e: "p\<lparr>jtokens := rest\<rparr> = p" "hd rest = j_peek p"
    by (simp_all add: j_peek_def)
  from Nil.prems(3) have "\<not> (j_check p J_NOT \<and> jvalue (j_peek p) = StringValue [39])"
    unfolding e .
  then have "postfixWhile node p = (node, p)"
    by (subst postfixWhile.simps) auto
  then show ?case using e(1) by simp
next
  case (Cons t primes)
  let ?p1 = "p\<lparr>jtokens := primes @ rest, idCounter := Suc (idCounter p)\<rparr>"
  have c: "j_check p J_NOT \<and> jvalue (j_peek p) = StringValue [39]"
    using Cons.prems by (simp add: j_check_def j_isAtEnd_def j_peek_def)
  have a: "newNotNode node (j_advance p) = (NotNode node (Suc (idCounter p)), ?p1)"
    using Cons.prems by (simp add: newNotNode_def generateId_def j_advance_def j_isAtEnd_def)
  have "postfixWhile (NotNode node (Suc (idCounter p))) ?p1
        = (jnotChain (NotNode node (Suc (idCounter p))) (idCounter ?p1) (length primes),
           ?p1\<lparr>jtokens := rest, idCounter := idCounter ?p1 + length primes\<rparr>)"
    by (rule Cons.IH) (use Cons.prems in \<open>simp_all add: j_check_def j_isAtEnd_def j_peek_def\<close>)
  moreover have "postfixWhile node p = postfixWhile (NotNode node (Suc (idCounter p))) ?p1"
    by (subst postfixWhile.simps) (simp add: c a)
  ultimately show ?case
    by (simp add: jnotChain_inner del: jnotChain.simps)
qed

lemma unary_prefix_chain:
  assumes "\<forall>t \<in> set pre. jtype t = J_NOT"
    and "unary q = Inr (operand, q1)"
  shows "unary (q\<lparr>jtokens := pre @ jtokens q\<rparr>)
         = Inr (jnotChain operand (idCounter q1) (length pre),
                q1\<lparr>idCounter := idCounter q1 + length pre\<rparr>)"
  using assms(1)
proof (induction pre)
  case Nil
  then show ?case using assms(2) by simp
next
  case (Cons t pre)
  let ?p = "q\<lparr>jtokens := t # pre @ jtokens q\<rparr>"
  have c: "j_check ?p J_NOT" using Cons.prems by (simp add: j_check_def j_isAtEnd_def j_peek_def)
  have a: "j_advance ?p = q\<lparr>jtokens := pre @ jtokens q\<rparr>"
    using Cons.prems by (simp add: j_advance_def j_isAtEnd_def)
  have "unary (q\<lparr>jtokens := pre @ jtokens q\<rparr>)
         = Inr (jnotChain operand (idCounter q1) (length pre),
                q1\<lparr>idCounter := idCounter q1 + length pre\<rparr>)"
    by (rule Cons.IH) (use Cons.prems in auto)
  moreover have "unary ?p =
      (case unary (j_advance ?p) of Inl e \<Rightarrow> Inl e
       | Inr (operand, p1) \<Rightarrow> Inr (newNotNode operand p1))"
    by (subst unary.simps) (simp only: c if_True)
  ultimately show ?case
    by (simp add: a newNotNode_def generateId_def)
qed

lemma unary_postfix_chain:
  assumes "\<not> j_check q J_NOT" and "primary q = Inr (node, q1)"
    and "jtokens q1 = primes @ rest"
    and "\<forall>t \<in> set primes. jtype t = J_NOT \<and> jvalue t = StringValue [39]"
    and "\<not> (j_check (q1\<lparr>jtokens := rest\<rparr>) J_NOT \<and> jvalue (hd rest) = StringValue [39])"
  shows "unary q
         = Inr (jnotChain node (idCounter q1) (length primes),
                q1\<lparr>jtokens := rest, idCounter := idCounter q1 + length primes\<rparr>)"
  using assms(1,2) postfixWhile_chain [OF assms(3,4,5), of node]
  by (simp add: unary.simps [of q])

text \<open>
  C4: a postfix apostrophe binds tighter than a prefix NOT and may chain.  In both parsers:
  prefix NOT tokens wrap the complete result of the unary expression that follows them,
  whatever it is, one NOT node per token, created after the operand; and a primary
  followed by apostrophes is wrapped in one NOT node per apostrophe before anything else
  is done with it.  A tree does not record which token made a NOT node, so the order of
  binding shows in these two laws and not in the shape of the result.  Parsing \<^verbatim>\<open>A''\<close> and
  \<^verbatim>\<open>~A'\<close> yields NOT(NOT(A)); \<^verbatim>\<open>A'''\<close>, \<^verbatim>\<open>~~A\<close> and \<^verbatim>\<open>~(A|B)''\<close> yield chains of three, two
  and three NOT nodes.
\<close>

theorem parse_postfix_prefix_not:
  "(\<forall>pre q operand q1.
      (\<forall>t \<in> set pre. tok_type t = T_NOT) \<and> parseUnary nanoid q = Inr (operand, q1)
      \<longrightarrow> parseUnary nanoid (q\<lparr>tokens := pre @ tokens q\<rparr>)
            = Inr (notChain nanoid operand (ids q1) (length pre),
                   q1\<lparr>ids := ids q1 + length pre\<rparr>))
   \<and> (\<forall>q node q1 primes rest.
      \<not> check q T_NOT \<and> parsePrimary nanoid q = Inr (node, q1) \<and> tokens q1 = primes @ rest
      \<and> (\<forall>t \<in> set primes. tok_type t = T_NOT \<and> tok_value t = [39])
      \<and> \<not> (check (q1\<lparr>tokens := rest\<rparr>) T_NOT \<and> tok_value (hd rest) = [39])
      \<longrightarrow> parseUnary nanoid q
            = Inr (notChain nanoid node (ids q1) (length primes),
                   q1\<lparr>tokens := rest, ids := ids q1 + length primes\<rparr>))
   \<and> (\<forall>pre q operand q1.
      (\<forall>t \<in> set pre. jtype t = J_NOT) \<and> unary q = Inr (operand, q1)
      \<longrightarrow> unary (q\<lparr>jtokens := pre @ jtokens q\<rparr>)
            = Inr (jnotChain operand (idCounter q1) (length pre),
                   q1\<lparr>idCounter := idCounter q1 + length pre\<rparr>))
   \<and> (\<forall>q node q1 primes rest.
      \<not> j_check q J_NOT \<and> primary q = Inr (node, q1) \<and> jtokens q1 = primes @ rest
      \<and> (\<forall>t \<in> set primes. jtype t = J_NOT \<and> jvalue t = StringValue [39])
      \<and> \<not> (j_check (q1\<lparr>jtokens := rest\<rparr>) J_NOT \<and> jvalue (hd rest) = StringValue [39])
      \<longrightarrow> unary q
            = Inr (jnotChain node (idCounter q1) (length primes),
                   q1\<lparr>jtokens := rest, idCounter := idCounter q1 + length primes\<rparr>))
   \<and> parse nanoid (js ''A'' @ [39, 39]) =
       Inr (ASTUnaryOp (ASTUnaryOp (ASTVariable (js ''A'') (nanoid 0)) (nanoid 1)) (nanoid 2),
            [js ''A''])
   \<and> parse nanoid (js ''~A'' @ [39]) =
       Inr (ASTUnaryOp (ASTUnaryOp (ASTVariable (js ''A'') (nanoid 0)) (nanoid 1)) (nanoid 2),
            [js ''A''])
   \<and> parse nanoid (js ''A'' @ [39, 39, 39]) =
       Inr (notChain nanoid (ASTVariable (js ''A'') (nanoid 0)) 1 3, [js ''A''])
   \<and> parse nanoid (js ''~~A'') =
       Inr (notChain nanoid (ASTVariable (js ''A'') (nanoid 0)) 1 2, [js ''A''])
   \<and> parse nanoid (js ''~(A|B)'' @ [39, 39]) =
       Inr (notChain nanoid
              (ASTBinaryOp N_OR (ASTVariable (js ''A'') (nanoid 0))
                 (ASTVariable (js ''B'') (nanoid 1)) (nanoid 2)) 3 3,
            [js ''A'', js ''B''])
   \<and> map_sum id fst (jsParseString c (js ''A'' @ [39, 39])) =
       Inr (NotNode (NotNode (VariableNode (js ''A'') 1) 2) 3)
   \<and> map_sum id fst (jsParseString c (js ''~A'' @ [39])) =
       Inr (NotNode (NotNode (VariableNode (js ''A'') 1) 2) 3)
   \<and> map_sum id fst (jsParseString c (js ''A'' @ [39, 39, 39])) =
       Inr (jnotChain (VariableNode (js ''A'') 1) 1 3)
   \<and> map_sum id fst (jsParseString c (js ''~~A'')) =
       Inr (jnotChain (VariableNode (js ''A'') 1) 1 2)"
proof -
  have e1: "parse nanoid (js ''A'' @ [39, 39]) =
       Inr (ASTUnaryOp (ASTUnaryOp (ASTVariable (js ''A'') (nanoid 0)) (nanoid 1)) (nanoid 2),
            [js ''A''])"
    by (simp add: lexer_simps parser_simps setAdd_def numeral_2_eq_2 numeral_3_eq_3)
  have e2: "parse nanoid (js ''~A'' @ [39]) =
       Inr (ASTUnaryOp (ASTUnaryOp (ASTVariable (js ''A'') (nanoid 0)) (nanoid 1)) (nanoid 2),
            [js ''A''])"
    by (simp add: lexer_simps parser_simps setAdd_def numeral_2_eq_2 numeral_3_eq_3)
  have e3: "parse nanoid (js ''A'' @ [39, 39, 39]) =
       Inr (notChain nanoid (ASTVariable (js ''A'') (nanoid 0)) 1 3, [js ''A''])"
    by (simp add: lexer_simps parser_simps setAdd_def numeral_2_eq_2 numeral_3_eq_3)
  have e4: "parse nanoid (js ''~~A'') =
       Inr (notChain nanoid (ASTVariable (js ''A'') (nanoid 0)) 1 2, [js ''A''])"
    by (simp add: lexer_simps parser_simps setAdd_def numeral_2_eq_2 numeral_3_eq_3)
  have e5: "parse nanoid (js ''~(A|B)'' @ [39, 39]) =
       Inr (notChain nanoid
              (ASTBinaryOp N_OR (ASTVariable (js ''A'') (nanoid 0))
                 (ASTVariable (js ''B'') (nanoid 1)) (nanoid 2)) 3 3,
            [js ''A'', js ''B''])"
    by (simp add: lexer_simps parser_simps setAdd_def numeral_2_eq_2 numeral_3_eq_3)
  have j1: "map_sum id fst (jsParseString c (js ''A'' @ [39, 39])) =
       Inr (NotNode (NotNode (VariableNode (js ''A'') 1) 2) 3)"
    by (simp add: jsParseString_def jlexer_simps jparser_simps numeral_2_eq_2 numeral_3_eq_3)
  have j2: "map_sum id fst (jsParseString c (js ''~A'' @ [39])) =
       Inr (NotNode (NotNode (VariableNode (js ''A'') 1) 2) 3)"
    by (simp add: jsParseString_def jlexer_simps jparser_simps numeral_2_eq_2 numeral_3_eq_3)
  have j3: "map_sum id fst (jsParseString c (js ''A'' @ [39, 39, 39])) =
       Inr (jnotChain (VariableNode (js ''A'') 1) 1 3)"
    by (simp add: jsParseString_def jlexer_simps jparser_simps numeral_2_eq_2 numeral_3_eq_3)
  have j4: "map_sum id fst (jsParseString c (js ''~~A'')) =
       Inr (jnotChain (VariableNode (js ''A'') 1) 1 2)"
    by (simp add: jsParseString_def jlexer_simps jparser_simps numeral_2_eq_2 numeral_3_eq_3)
  show ?thesis
    apply (intro conjI allI impI)
    subgoal by (rule parseUnary_prefix_chain) simp_all
    subgoal by (rule parseUnary_postfix_chain) simp_all
    subgoal by (rule unary_prefix_chain) simp_all
    subgoal by (rule unary_postfix_chain) simp_all
    subgoal by (rule e1)
    subgoal by (rule e2)
    subgoal by (rule e3)
    subgoal by (rule e4)
    subgoal by (rule e5)
    subgoal by (rule j1)
    subgoal by (rule j2)
    subgoal by (rule j3)
    subgoal by (rule j4)
    done
qed

text \<open>
  The two laws at the tokens of \<^verbatim>\<open>~A'\<close>: the apostrophe is consumed with \<open>A\<close>, and the prefix
  NOT is applied to the result \<^verbatim>\<open>A'\<close>.
\<close>

theorem parse_postfix_prefix_not_witness:
  "parseUnary (\<lambda>k. [k])
     \<lparr>tokens = [\<lparr>tok_type = T_NOT, tok_value = [126], tok_position = 0, tok_length = 1\<rparr>,
                \<lparr>tok_type = T_VARIABLE, tok_value = js ''A'', tok_position = 1, tok_length = 1\<rparr>,
                \<lparr>tok_type = T_NOT, tok_value = [39], tok_position = 2, tok_length = 1\<rparr>,
                \<lparr>tok_type = T_EOF, tok_value = [], tok_position = 3, tok_length = 0\<rparr>],
      pvariables = [], ids = 0\<rparr>
   = Inr (ASTUnaryOp (ASTUnaryOp (ASTVariable (js ''A'') [0]) [1]) [2],
          \<lparr>tokens = [\<lparr>tok_type = T_EOF, tok_value = [], tok_position = 3, tok_length = 0\<rparr>],
           pvariables = [js ''A''], ids = 3\<rparr>)
   \<and> unary
     \<lparr>jtokens = [\<lparr>jtype = J_NOT, jvalue = StringValue [126], jposition = 0\<rparr>,
                 \<lparr>jtype = J_VARIABLE, jvalue = StringValue (js ''A''), jposition = 1\<rparr>,
                 \<lparr>jtype = J_NOT, jvalue = StringValue [39], jposition = 2\<rparr>,
                 \<lparr>jtype = J_EOF, jvalue = StringValue [], jposition = 3\<rparr>],
      idCounter = 0\<rparr>
   = Inr (NotNode (NotNode (VariableNode (js ''A'') 1) 2) 3,
          \<lparr>jtokens = [\<lparr>jtype = J_EOF, jvalue = StringValue [], jposition = 3\<rparr>],
           idCounter = 3\<rparr>)"
proof -
  let ?g = "\<lambda>k::nat. [k]"
  let ?tilde = "\<lparr>tok_type = T_NOT, tok_value = [126], tok_position = 0, tok_length = 1\<rparr>"
  let ?A = "\<lparr>tok_type = T_VARIABLE, tok_value = js ''A'', tok_position = 1, tok_length = 1\<rparr>"
  let ?prime = "\<lparr>tok_type = T_NOT, tok_value = [39], tok_position = 2, tok_length = 1\<rparr>"
  let ?eof = "\<lparr>tok_type = T_EOF, tok_value = [], tok_position = 3, tok_length = 0\<rparr>"
  let ?q = "\<lparr>tokens = [?A, ?prime, ?eof], pvariables = [], ids = 0\<rparr>"
  let ?q1 = "\<lparr>tokens = [?prime, ?eof], pvariables = [js ''A''], ids = 1\<rparr>"
  note T = parse_postfix_prefix_not [of ?g]
  have p: "parsePrimary ?g ?q = Inr (ASTVariable (js ''A'') [0], ?q1)"
    by (subst parsePrimary.simps)
       (simp add: check_def isAtEnd_def peek_def advance_def setAdd_def Let_def)
  have "parseUnary ?g ?q
        = Inr (notChain ?g (ASTVariable (js ''A'') [0]) (ids ?q1) (length [?prime]),
               ?q1\<lparr>tokens := [?eof], ids := ids ?q1 + length [?prime]\<rparr>)"
    by (rule T [THEN conjunct2, THEN conjunct1, rule_format])
       (use p in \<open>simp add: check_def isAtEnd_def peek_def\<close>)
  then have u: "parseUnary ?g ?q
        = Inr (ASTUnaryOp (ASTVariable (js ''A'') [0]) [1],
               \<lparr>tokens = [?eof], pvariables = [js ''A''], ids = 2\<rparr>)"
    by simp
  have "parseUnary ?g (?q\<lparr>tokens := [?tilde] @ tokens ?q\<rparr>)
        = Inr (notChain ?g (ASTUnaryOp (ASTVariable (js ''A'') [0]) [1]) 2 (length [?tilde]),
               \<lparr>tokens = [?eof], pvariables = [js ''A''], ids = 2\<rparr>\<lparr>ids := 2 + length [?tilde]\<rparr>)"
    using T [THEN conjunct1, rule_format, of "[?tilde]" ?q, OF conjI [OF _ u]] by simp
  then have engine: "parseUnary ?g \<lparr>tokens = [?tilde, ?A, ?prime, ?eof], pvariables = [], ids = 0\<rparr>
        = Inr (ASTUnaryOp (ASTUnaryOp (ASTVariable (js ''A'') [0]) [1]) [2],
               \<lparr>tokens = [?eof], pvariables = [js ''A''], ids = 3\<rparr>)"
    by simp
  let ?jtilde = "\<lparr>jtype = J_NOT, jvalue = StringValue [126], jposition = 0\<rparr>"
  let ?jA = "\<lparr>jtype = J_VARIABLE, jvalue = StringValue (js ''A''), jposition = 1\<rparr>"
  let ?jprime = "\<lparr>jtype = J_NOT, jvalue = StringValue [39], jposition = 2\<rparr>"
  let ?jeof = "\<lparr>jtype = J_EOF, jvalue = StringValue [], jposition = 3\<rparr>"
  let ?r = "\<lparr>jtokens = [?jA, ?jprime, ?jeof], idCounter = 0\<rparr>"
  let ?r1 = "\<lparr>jtokens = [?jprime, ?jeof], idCounter = 1\<rparr>"
  have jp: "primary ?r = Inr (VariableNode (js ''A'') 1, ?r1)"
    by (subst primary.simps)
       (simp add: j_check_def j_isAtEnd_def j_peek_def j_advance_def
          generateId_def stringOf_def Let_def)
  have "unary ?r
        = Inr (jnotChain (VariableNode (js ''A'') 1) (idCounter ?r1) (length [?jprime]),
               ?r1\<lparr>jtokens := [?jeof], idCounter := idCounter ?r1 + length [?jprime]\<rparr>)"
    by (rule T [THEN conjunct2, THEN conjunct2, THEN conjunct2, THEN conjunct1, rule_format])
       (use jp in \<open>simp add: j_check_def j_isAtEnd_def j_peek_def\<close>)
  then have ju: "unary ?r
        = Inr (NotNode (VariableNode (js ''A'') 1) 2, \<lparr>jtokens = [?jeof], idCounter = 2\<rparr>)"
    by simp
  have "unary (?r\<lparr>jtokens := [?jtilde] @ jtokens ?r\<rparr>)
        = Inr (jnotChain (NotNode (VariableNode (js ''A'') 1) 2) 2 (length [?jtilde]),
               \<lparr>jtokens = [?jeof], idCounter = 2\<rparr>\<lparr>idCounter := 2 + length [?jtilde]\<rparr>)"
    using T [THEN conjunct2, THEN conjunct2, THEN conjunct1, rule_format, of "[?jtilde]" ?r,
        OF conjI [OF _ ju]] by simp
  then have client: "unary \<lparr>jtokens = [?jtilde, ?jA, ?jprime, ?jeof], idCounter = 0\<rparr>
        = Inr (NotNode (NotNode (VariableNode (js ''A'') 1) 2) 3,
               \<lparr>jtokens = [?jeof], idCounter = 3\<rparr>)"
    by simp
  from engine client show ?thesis by simp
qed

text \<open>
  C3: after an AND-tier operand, a token that can start a unary expression is joined to
  it by a synthesized AND node.  On \<^verbatim>\<open>A ~B\<close> the engine's parser does so, with the NOT
  token starting the juxtaposed operand; the client library's \<^verbatim>\<open>andExpression\<close> joins
  \<^verbatim>\<open>A B\<close> but does not look for a NOT token and rejects \<^verbatim>\<open>A ~B\<close> at the \<^verbatim>\<open>~\<close>.
\<close>

theorem implicit_and_before_not:
  "parse nanoid (js ''A ~B'') =
     Inr (ASTBinaryOp N_AND (ASTVariable (js ''A'') (nanoid 0))
            (ASTUnaryOp (ASTVariable (js ''B'') (nanoid 1)) (nanoid 2)) (nanoid 3),
          [js ''A'', js ''B''])
   \<and> map_sum id fst (jsParseString c (js ''A ~B'')) =
       Inl (ParserError (UnexpectedTokenAfterExpression (StringValue (js ''~'')))
             \<lparr>jtype = J_NOT, jvalue = StringValue (js ''~''), jposition = 2\<rparr>)
   \<and> map_sum id fst (jsParseString c (js ''A B'')) =
       Inr (AndNode (VariableNode (js ''A'') 1) (VariableNode (js ''B'') 2) 3)"
  by (simp add: lexer_simps parser_simps setAdd_def jsParseString_def jlexer_simps
        jparser_simps numeral_2_eq_2 numeral_3_eq_3)

subsection \<open>Variable tokens\<close>

lemma toUpperCase_no_lower: "c \<in> set (toUpperCase s) \<Longrightarrow> \<not> (97 \<le> c \<and> c \<le> 122)"
  by (auto simp add: toUpperCase_def)

lemma nextToken_variable:
  assumes "nextToken input position = Inr (Some t, position')"
  shows "tok_position t = position \<and> position' = position + tok_length t
         \<and> tok_value t = normalizeValue (tok_type t) (take (tok_length t) (drop position input))"
  using assms by (auto simp add: nextToken_def Let_def split: option.splits)

lemma tokenizeLoop_tokens:
  assumes "tokenizeLoop input position toks = Inr res" and "t \<in> set res"
  shows "t \<in> set toks \<or> tok_type t = T_EOF
         \<or> tok_value t = normalizeValue (tok_type t) (take (tok_length t) (drop (tok_position t) input))"
  using assms
proof (induction input position toks rule: tokenizeLoop.induct)
  case (1 input position toks)
  show ?case
  proof (cases "position < length input")
    case True
    with "1.prems"(1) obtain token position' where
      n: "nextToken input position = Inr (token, position')"
      and l: "tokenizeLoop input position' (case token of None \<Rightarrow> toks | Some t \<Rightarrow> toks @ [t]) = Inr res"
      by (auto simp add: tokenizeLoop.simps [of input position toks] split: sum.splits)
    from "1.IH" [OF True n refl l "1.prems"(2)]
    consider "t \<in> set (case token of None \<Rightarrow> toks | Some t \<Rightarrow> toks @ [t])" | "tok_type t = T_EOF"
      | "tok_value t = normalizeValue (tok_type t) (take (tok_length t) (drop (tok_position t) input))"
      by blast
    then show ?thesis
    proof cases
      case 1
      then show ?thesis
        using nextToken_variable [of input position t position'] n
        by (cases token) auto
    qed auto
  next
    case False
    with "1.prems" show ?thesis
      by (auto simp add: tokenizeLoop.simps [of input position toks])
  qed
qed

text \<open>
  C5, as amended: every variable token produced by the engine's \<^verbatim>\<open>tokenize\<close> carries the
  upper-cased text of the identifier it was read from, and no lower-case letter.
\<close>

theorem tokenize_variable_uppercase:
  assumes "tokenize input = Inr toks" and "t \<in> set toks" and "tok_type t = T_VARIABLE"
  shows "tok_value t = toUpperCase (take (tok_length t) (drop (tok_position t) input))
         \<and> (\<forall>c \<in> set (tok_value t). \<not> (97 \<le> c \<and> c \<le> 122))"
proof -
  from tokenizeLoop_tokens [OF assms(1) [unfolded tokenize_def] assms(2)] assms(3)
  have v: "tok_value t = toUpperCase (take (tok_length t) (drop (tok_position t) input))"
    by (simp add: normalizeValue_def)
  then show ?thesis using toUpperCase_no_lower by metis
qed

text \<open>The inputs \<^verbatim>\<open>a\<close> and \<^verbatim>\<open>A\<close> give the engine the same tokens.\<close>

theorem tokenize_variable_uppercase_witness:
  "tokenize (js ''a'') = tokenize (js ''A'')
   \<and> tokenize (js ''a'') =
       Inr [\<lparr>tok_type = T_VARIABLE, tok_value = js ''A'', tok_position = 0, tok_length = 1\<rparr>,
            \<lparr>tok_type = T_EOF, tok_value = [], tok_position = 1, tok_length = 0\<rparr>]
   \<and> js ''A'' = toUpperCase (take 1 (drop 0 (js ''a'')))"
proof -
  have t: "tokenize (js ''a'') =
       Inr [\<lparr>tok_type = T_VARIABLE, tok_value = js ''A'', tok_position = 0, tok_length = 1\<rparr>,
            \<lparr>tok_type = T_EOF, tok_value = [], tok_position = 1, tok_length = 0\<rparr>]"
    by (simp add: lexer_simps)
  have u: "tokenize (js ''A'') =
       Inr [\<lparr>tok_type = T_VARIABLE, tok_value = js ''A'', tok_position = 0, tok_length = 1\<rparr>,
            \<lparr>tok_type = T_EOF, tok_value = [], tok_position = 1, tok_length = 0\<rparr>]"
    by (simp add: lexer_simps)
  from tokenize_variable_uppercase [OF t, of "\<lparr>tok_type = T_VARIABLE, tok_value = js ''A'', tok_position = 0, tok_length = 1\<rparr>"]
  have "js ''A'' = toUpperCase (take 1 (drop 0 (js ''a'')))" by simp
  with t u show ?thesis by simp
qed

text \<open>
  The client library's lexer keeps the identifier as written: \<^verbatim>\<open>a\<close> and \<^verbatim>\<open>A\<close> are two
  different variable tokens there.
\<close>

theorem tokenize_variable_uppercase_counterexample:
  "jsTokenize (js ''a'') =
     Inr [\<lparr>jtype = J_VARIABLE, jvalue = StringValue (js ''a''), jposition = 0\<rparr>,
          \<lparr>jtype = J_EOF, jvalue = StringValue [], jposition = 1\<rparr>]
   \<and> jsTokenize (js ''A'') =
     Inr [\<lparr>jtype = J_VARIABLE, jvalue = StringValue (js ''A''), jposition = 0\<rparr>,
          \<lparr>jtype = J_EOF, jvalue = StringValue [], jposition = 1\<rparr>]
   \<and> js ''a'' \<noteq> js ''A''"
  by (simp add: jlexer_simps)

section \<open>Identifiers and determinism\<close>

lemma eraseResult_Inr [simp]:
  "eraseResult (Inr (a, p)) = Inr (eraseIds a, tokens p, pvariables p)"
  by (simp add: eraseResult_def)

lemma eraseResult_Inl [simp]: "eraseResult (Inl e) = Inl e"
  by (simp add: eraseResult_def)

lemma eraseResult_eq_Inl: "eraseResult r' = eraseResult r \<Longrightarrow> r = Inl e \<Longrightarrow> r' = Inl e"
  by (cases r') (auto simp add: eraseResult_def)

lemma eraseResult_eq_Inr:
  assumes "eraseResult r' = eraseResult r" "r = Inr (a, q)"
  obtains a' q' where "r' = Inr (a', q')" "eraseIds a' = eraseIds a" "sameInput q q'"
  using assms by (cases r') (auto simp add: eraseResult_def sameInput_def)

lemma sameInput_check: "sameInput p p' \<Longrightarrow> check p' ty = check p ty"
  by (simp add: sameInput_def check_def isAtEnd_def peek_def)

lemma sameInput_peek: "sameInput p p' \<Longrightarrow> peek p' = peek p"
  by (simp add: sameInput_def peek_def)

lemma sameInput_advance: "sameInput p p' \<Longrightarrow> sameInput (advance p) (advance p')"
  by (simp add: sameInput_def advance_def isAtEnd_def)

lemma sameInput_createBinaryNode:
  assumes "sameInput p p'" "eraseIds l' = eraseIds l" "eraseIds r' = eraseIds r"
    and "createBinaryNode g ty l r p = (node, p2)"
    and "createBinaryNode g' ty l' r' p' = (node', p2')"
  shows "eraseIds node' = eraseIds node \<and> sameInput p2 p2'"
  using assms by (auto simp add: createBinaryNode_def sameInput_def)

lemma sameInput_createUnaryNode:
  assumes "sameInput p p'" "eraseIds a' = eraseIds a"
  shows "eraseResult (Inr (createUnaryNode g' a' p')) = eraseResult (Inr (createUnaryNode g a p))"
  using assms by (auto simp add: createUnaryNode_def sameInput_def eraseResult_def)

lemma sameInput_postfixLoop:
  "sameInput p p' \<Longrightarrow> eraseIds a' = eraseIds a \<Longrightarrow>
   eraseResult (Inr (postfixLoop g' a' p')) = eraseResult (Inr (postfixLoop g a p))"
proof (induction g a p arbitrary: a' p' rule: postfixLoop.induct)
  case (1 nanoid node p)
  note s = "1.prems"(1) and e = "1.prems"(2)
  show ?case
  proof (cases "check p T_NOT \<and> tok_value (peek p) = [39]")
    case True
    then have c': "check p' T_NOT \<and> tok_value (peek p') = [39]"
      using s by (simp add: sameInput_check sameInput_peek)
    obtain node1 p1 where c: "createUnaryNode nanoid node (advance p) = (node1, p1)"
      by (cases "createUnaryNode nanoid node (advance p)")
    obtain node1' p1' where d: "createUnaryNode g' a' (advance p') = (node1', p1')"
      by (cases "createUnaryNode g' a' (advance p')")
    have r: "eraseIds node1' = eraseIds node1" "sameInput p1 p1'"
      using c d e sameInput_advance [OF s]
      by (auto simp add: createUnaryNode_def sameInput_def)
    have "postfixLoop nanoid node p = postfixLoop nanoid node1 p1"
      by (subst postfixLoop.simps) (simp add: True c)
    moreover have "postfixLoop g' a' p' = postfixLoop g' node1' p1'"
      by (subst postfixLoop.simps) (simp add: c' d)
    ultimately show ?thesis
      using "1.IH" [OF True c [symmetric] r(2) r(1)] by simp
  next
    case False
    then have c': "\<not> (check p' T_NOT \<and> tok_value (peek p') = [39])"
      using s by (simp add: sameInput_check sameInput_peek)
    have "postfixLoop nanoid node p = (node, p)"
      using False by (subst postfixLoop.simps) auto
    moreover have "postfixLoop g' a' p' = (a', p')"
      using c' by (subst postfixLoop.simps) auto
    ultimately show ?thesis using s e by (simp add: sameInput_def)
  qed
qed

lemma binary_loop_step:
  assumes s: "sameInput p p'" and e: "eraseIds l' = eraseIds l"
    and operand: "eraseResult (f' (advance p')) = eraseResult (f (advance p))"
    and loop: "\<And>right p1 node p2 node' p2'.
        f (advance p) = Inr (right, p1) \<Longrightarrow>
        createBinaryNode g (tok_type (peek p)) l right p1 = (node, p2) \<Longrightarrow>
        eraseIds node' = eraseIds node \<Longrightarrow> sameInput p2 p2' \<Longrightarrow>
        eraseResult (lp' node' p2') = eraseResult (lp node p2)"
  shows "eraseResult
           (case f' (advance p') of Inl e \<Rightarrow> Inl e
            | Inr (right, p1) \<Rightarrow>
                (case createBinaryNode g' (tok_type (peek p')) l' right p1 of
                   (node, p2) \<Rightarrow> lp' node p2))
         = eraseResult
           (case f (advance p) of Inl e \<Rightarrow> Inl e
            | Inr (right, p1) \<Rightarrow>
                (case createBinaryNode g (tok_type (peek p)) l right p1 of
                   (node, p2) \<Rightarrow> lp node p2))"
proof (cases "f (advance p)")
  case (Inl err)
  with operand have "f' (advance p') = Inl err" by (rule eraseResult_eq_Inl)
  with Inl show ?thesis by simp
next
  case (Inr x)
  obtain right p1 where x: "x = (right, p1)" by (cases x)
  obtain right' p1' where
    r: "f' (advance p') = Inr (right', p1')" "eraseIds right' = eraseIds right" "sameInput p1 p1'"
    by (rule eraseResult_eq_Inr [OF operand Inr [unfolded x]])
  obtain node p2 where c: "createBinaryNode g (tok_type (peek p)) l right p1 = (node, p2)"
    by (cases "createBinaryNode g (tok_type (peek p)) l right p1")
  obtain node' p2' where d: "createBinaryNode g' (tok_type (peek p)) l' right' p1' = (node', p2')"
    by (cases "createBinaryNode g' (tok_type (peek p)) l' right' p1'")
  have n: "eraseIds node' = eraseIds node \<and> sameInput p2 p2'"
    using r(3) e r(2) c d by (rule sameInput_createBinaryNode)
  have "eraseResult (lp' node' p2') = eraseResult (lp node p2)"
    using Inr [unfolded x] c n by (auto intro: loop)
  then show ?thesis
    using Inr x r(1) c d sameInput_peek [OF s] by simp
qed

lemma sequence_step:
  assumes first: "eraseResult (f' p') = eraseResult (f p)"
    and rest: "\<And>left p1 left' p1'. f p = Inr (left, p1) \<Longrightarrow>
        eraseIds left' = eraseIds left \<Longrightarrow> sameInput p1 p1' \<Longrightarrow>
        eraseResult (lp' left' p1') = eraseResult (lp left p1)"
  shows "eraseResult (case f' p' of Inl e \<Rightarrow> Inl e | Inr (left, p1) \<Rightarrow> lp' left p1)
         = eraseResult (case f p of Inl e \<Rightarrow> Inl e | Inr (left, p1) \<Rightarrow> lp left p1)"
proof (cases "f p")
  case (Inl err)
  with first have "f' p' = Inl err" by (rule eraseResult_eq_Inl)
  with Inl show ?thesis by simp
next
  case (Inr x)
  obtain left p1 where x: "x = (left, p1)" by (cases x)
  obtain left' p1' where
    r: "f' p' = Inr (left', p1')" "eraseIds left' = eraseIds left" "sameInput p1 p1'"
    by (rule eraseResult_eq_Inr [OF first Inr [unfolded x]])
  have "eraseResult (lp' left' p1') = eraseResult (lp left p1)"
    using Inr [unfolded x] r(2,3) by (rule rest)
  then show ?thesis using Inr x r(1) by simp
qed

lemma parse_erase:
  "\<forall>p'. sameInput p p' \<longrightarrow>
     eraseResult (parseExpression g' p') = eraseResult (parseExpression g p)"
  "\<forall>l' p'. sameInput p p' \<and> eraseIds l' = eraseIds l \<longrightarrow>
     eraseResult (orLoop g' l' p') = eraseResult (orLoop g l p)"
  "\<forall>p'. sameInput p p' \<longrightarrow>
     eraseResult (parseTerm g' p') = eraseResult (parseTerm g p)"
  "\<forall>l' p'. sameInput p p' \<and> eraseIds l' = eraseIds l \<longrightarrow>
     eraseResult (xorLoop g' l' p') = eraseResult (xorLoop g l p)"
  "\<forall>p'. sameInput p p' \<longrightarrow>
     eraseResult (parseFactor g' p') = eraseResult (parseFactor g p)"
  "\<forall>l' p'. sameInput p p' \<and> eraseIds l' = eraseIds l \<longrightarrow>
     eraseResult (andLoop g' l' p') = eraseResult (andLoop g l p)"
  "\<forall>l' p'. sameInput p p' \<and> eraseIds l' = eraseIds l \<longrightarrow>
     eraseResult (implicitLoop g' l' p') = eraseResult (implicitLoop g l p)"
  "\<forall>p'. sameInput p p' \<longrightarrow>
     eraseResult (parseUnary g' p') = eraseResult (parseUnary g p)"
  "\<forall>p'. sameInput p p' \<longrightarrow>
     eraseResult (parsePrimary g' p') = eraseResult (parsePrimary g p)"
proof (induct g p and g l p and g p and g l p and g p and g l p and g l p and g p and g p
    rule: parseExpression_orLoop_parseTerm_xorLoop_parseFactor_andLoop_implicitLoop_parseUnary_parsePrimary.induct)
  case (1 nanoid p)
  show ?case
  proof (intro allI impI)
    fix p' assume s: "sameInput p p'"
    show "eraseResult (parseExpression g' p') = eraseResult (parseExpression nanoid p)"
      unfolding parseExpression.simps [of nanoid p] parseExpression.simps [of g' p']
    proof (rule sequence_step)
      show "eraseResult (parseTerm g' p') = eraseResult (parseTerm nanoid p)"
        using 1(1) s by blast
    next
      fix left p1 left' p1'
      assume "parseTerm nanoid p = Inr (left, p1)" "eraseIds left' = eraseIds left" "sameInput p1 p1'"
      then show "eraseResult (orLoop g' left' p1') = eraseResult (orLoop nanoid left p1)"
        using 1(2) by blast
    qed
  qed
next
  case (2 nanoid left p)
  show ?case
  proof (intro allI impI, elim conjE)
    fix l' p' assume s: "sameInput p p'" and e: "eraseIds l' = eraseIds left"
    show "eraseResult (orLoop g' l' p') = eraseResult (orLoop nanoid left p)"
    proof (cases "check p T_OR \<or> check p T_NOR")
      case True
      then have c': "check p' T_OR \<or> check p' T_NOR" using s by (simp add: sameInput_check)
      have "eraseResult
           (case parseTerm g' (advance p') of Inl e \<Rightarrow> Inl e
            | Inr (right, p1) \<Rightarrow>
                (case createBinaryNode g' (tok_type (peek p')) l' right p1 of
                   (node, p2) \<Rightarrow> orLoop g' node p2))
         = eraseResult
           (case parseTerm nanoid (advance p) of Inl e \<Rightarrow> Inl e
            | Inr (right, p1) \<Rightarrow>
                (case createBinaryNode nanoid (tok_type (peek p)) left right p1 of
                   (node, p2) \<Rightarrow> orLoop nanoid node p2))"
      proof (rule binary_loop_step [OF s e])
        show "eraseResult (parseTerm g' (advance p')) = eraseResult (parseTerm nanoid (advance p))"
          using 2(1) [OF True refl] sameInput_advance [OF s] by blast
      next
        fix right p1 node p2 node' p2'
        assume "parseTerm nanoid (advance p) = Inr (right, p1)"
          "createBinaryNode nanoid (tok_type (peek p)) left right p1 = (node, p2)"
          "eraseIds node' = eraseIds node" "sameInput p2 p2'"
        then show "eraseResult (orLoop g' node' p2') = eraseResult (orLoop nanoid node p2)"
          using 2(2) [OF True refl _ refl] by (metis)
      qed
      then show ?thesis
        using True c' by (simp add: orLoop.simps [of nanoid left p] orLoop.simps [of g' l' p'] Let_def)
    next
      case False
      then have c': "\<not> (check p' T_OR \<or> check p' T_NOR)" using s by (simp add: sameInput_check)
      show ?thesis
        using False c' s e
        by (simp add: orLoop.simps [of nanoid left p] orLoop.simps [of g' l' p'] sameInput_def)
    qed
  qed
next
  case (3 nanoid p)
  show ?case
  proof (intro allI impI)
    fix p' assume s: "sameInput p p'"
    show "eraseResult (parseTerm g' p') = eraseResult (parseTerm nanoid p)"
      unfolding parseTerm.simps [of nanoid p] parseTerm.simps [of g' p']
    proof (rule sequence_step)
      show "eraseResult (parseFactor g' p') = eraseResult (parseFactor nanoid p)"
        using 3(1) s by blast
    next
      fix left p1 left' p1'
      assume "parseFactor nanoid p = Inr (left, p1)" "eraseIds left' = eraseIds left" "sameInput p1 p1'"
      then show "eraseResult (xorLoop g' left' p1') = eraseResult (xorLoop nanoid left p1)"
        using 3(2) by blast
    qed
  qed
next
  case (4 nanoid left p)
  show ?case
  proof (intro allI impI, elim conjE)
    fix l' p' assume s: "sameInput p p'" and e: "eraseIds l' = eraseIds left"
    show "eraseResult (xorLoop g' l' p') = eraseResult (xorLoop nanoid left p)"
    proof (cases "check p T_XOR \<or> check p T_XNOR")
      case True
      then have c': "check p' T_XOR \<or> check p' T_XNOR" using s by (simp add: sameInput_check)
      have "eraseResult
           (case parseFactor g' (advance p') of Inl e \<Rightarrow> Inl e
            | Inr (right, p1) \<Rightarrow>
                (case createBinaryNode g' (tok_type (peek p')) l' right p1 of
                   (node, p2) \<Rightarrow> xorLoop g' node p2))
         = eraseResult
           (case parseFactor nanoid (advance p) of Inl e \<Rightarrow> Inl e
            | Inr (right, p1) \<Rightarrow>
                (case createBinaryNode nanoid (tok_type (peek p)) left right p1 of
                   (node, p2) \<Rightarrow> xorLoop nanoid node p2))"
      proof (rule binary_loop_step [OF s e])
        show "eraseResult (parseFactor g' (advance p')) = eraseResult (parseFactor nanoid (advance p))"
          using 4(1) [OF True refl] sameInput_advance [OF s] by blast
      next
        fix right p1 node p2 node' p2'
        assume "parseFactor nanoid (advance p) = Inr (right, p1)"
          "createBinaryNode nanoid (tok_type (peek p)) left right p1 = (node, p2)"
          "eraseIds node' = eraseIds node" "sameInput p2 p2'"
        then show "eraseResult (xorLoop g' node' p2') = eraseResult (xorLoop nanoid node p2)"
          using 4(2) [OF True refl _ refl] by (metis)
      qed
      then show ?thesis
        using True c' by (simp add: xorLoop.simps [of nanoid left p] xorLoop.simps [of g' l' p'] Let_def)
    next
      case False
      then have c': "\<not> (check p' T_XOR \<or> check p' T_XNOR)" using s by (simp add: sameInput_check)
      show ?thesis
        using False c' s e
        by (simp add: xorLoop.simps [of nanoid left p] xorLoop.simps [of g' l' p'] sameInput_def)
    qed
  qed
next
  case (5 nanoid p)
  show ?case
  proof (intro allI impI)
    fix p' assume s: "sameInput p p'"
    show "eraseResult (parseFactor g' p') = eraseResult (parseFactor nanoid p)"
      unfolding parseFactor.simps [of nanoid p] parseFactor.simps [of g' p']
    proof (rule sequence_step)
      show "eraseResult (parseUnary g' p') = eraseResult (parseUnary nanoid p)"
        using 5(1) s by blast
    next
      fix left p1 left' p1'
      assume "parseUnary nanoid p = Inr (left, p1)" "eraseIds left' = eraseIds left" "sameInput p1 p1'"
      then show "eraseResult (andLoop g' left' p1') = eraseResult (andLoop nanoid left p1)"
        using 5(2) by blast
    qed
  qed
next
  case (6 nanoid left p)
  show ?case
  proof (intro allI impI, elim conjE)
    fix l' p' assume s: "sameInput p p'" and e: "eraseIds l' = eraseIds left"
    show "eraseResult (andLoop g' l' p') = eraseResult (andLoop nanoid left p)"
    proof (cases "check p T_AND \<or> check p T_NAND")
      case True
      then have c': "check p' T_AND \<or> check p' T_NAND" using s by (simp add: sameInput_check)
      have "eraseResult
           (case parseUnary g' (advance p') of Inl e \<Rightarrow> Inl e
            | Inr (right, p1) \<Rightarrow>
                (case createBinaryNode g' (tok_type (peek p')) l' right p1 of
                   (node, p2) \<Rightarrow> andLoop g' node p2))
         = eraseResult
           (case parseUnary nanoid (advance p) of Inl e \<Rightarrow> Inl e
            | Inr (right, p1) \<Rightarrow>
                (case createBinaryNode nanoid (tok_type (peek p)) left right p1 of
                   (node, p2) \<Rightarrow> andLoop nanoid node p2))"
      proof (rule binary_loop_step [OF s e])
        show "eraseResult (parseUnary g' (advance p')) = eraseResult (parseUnary nanoid (advance p))"
          using 6(1) [OF True refl] sameInput_advance [OF s] by blast
      next
        fix right p1 node p2 node' p2'
        assume "parseUnary nanoid (advance p) = Inr (right, p1)"
          "createBinaryNode nanoid (tok_type (peek p)) left right p1 = (node, p2)"
          "eraseIds node' = eraseIds node" "sameInput p2 p2'"
        then show "eraseResult (andLoop g' node' p2') = eraseResult (andLoop nanoid node p2)"
          using 6(2) [OF True refl _ refl] by (metis)
      qed
      then show ?thesis
        using True c' by (simp add: andLoop.simps [of nanoid left p] andLoop.simps [of g' l' p'] Let_def)
    next
      case False
      then have c': "\<not> (check p' T_AND \<or> check p' T_NAND)" using s by (simp add: sameInput_check)
      have "eraseResult (implicitLoop g' l' p') = eraseResult (implicitLoop nanoid left p)"
        using 6(3) [OF False] s e by blast
      then show ?thesis
        using False c'
        by (simp add: andLoop.simps [of nanoid left p] andLoop.simps [of g' l' p'])
    qed
  qed
next
  case (7 nanoid left p)
  let ?c = "\<lambda>p. check p T_VARIABLE \<or> check p T_LPAREN \<or> check p T_NOT \<or> check p T_LITERAL"
  show ?case
  proof (intro allI impI, elim conjE)
    fix l' p' assume s: "sameInput p p'" and e: "eraseIds l' = eraseIds left"
    show "eraseResult (implicitLoop g' l' p') = eraseResult (implicitLoop nanoid left p)"
    proof (cases "?c p")
      case True
      then have c': "?c p'" using s by (simp add: sameInput_check)
      have "eraseResult
           (case parseUnary g' p' of Inl e \<Rightarrow> Inl e
            | Inr (right, p1) \<Rightarrow>
                (case createBinaryNode g' T_AND l' right p1 of
                   (node, p2) \<Rightarrow> implicitLoop g' node p2))
         = eraseResult
           (case parseUnary nanoid p of Inl e \<Rightarrow> Inl e
            | Inr (right, p1) \<Rightarrow>
                (case createBinaryNode nanoid T_AND left right p1 of
                   (node, p2) \<Rightarrow> implicitLoop nanoid node p2))"
      proof (rule sequence_step)
        show "eraseResult (parseUnary g' p') = eraseResult (parseUnary nanoid p)"
          using 7(1) [OF True] s by blast
      next
        fix right p1 right' p1'
        assume a: "parseUnary nanoid p = Inr (right, p1)" "eraseIds right' = eraseIds right"
          "sameInput p1 p1'"
        obtain node p2 where c: "createBinaryNode nanoid T_AND left right p1 = (node, p2)"
          by (cases "createBinaryNode nanoid T_AND left right p1")
        obtain node' p2' where d: "createBinaryNode g' T_AND l' right' p1' = (node', p2')"
          by (cases "createBinaryNode g' T_AND l' right' p1'")
        have n: "eraseIds node' = eraseIds node \<and> sameInput p2 p2'"
          using a(3) e a(2) c d by (rule sameInput_createBinaryNode)
        have "eraseResult (implicitLoop g' node' p2') = eraseResult (implicitLoop nanoid node p2)"
          using 7(2) [OF True a(1) refl c [symmetric]] n by blast
        then show "eraseResult (case createBinaryNode g' T_AND l' right' p1' of
                     (node, p2) \<Rightarrow> implicitLoop g' node p2)
               = eraseResult (case createBinaryNode nanoid T_AND left right p1 of
                     (node, p2) \<Rightarrow> implicitLoop nanoid node p2)"
          using c d by simp
      qed
      then show ?thesis
        using True c'
        by (simp add: implicitLoop.simps [of nanoid left p] implicitLoop.simps [of g' l' p'])
    next
      case False
      then have c': "\<not> ?c p'" using s by (simp add: sameInput_check)
      show ?thesis
        using False c' s e
        by (simp add: implicitLoop.simps [of nanoid left p] implicitLoop.simps [of g' l' p']
              sameInput_def)
    qed
  qed
next
  case (8 nanoid p)
  show ?case
  proof (intro allI impI)
    fix p' assume s: "sameInput p p'"
    show "eraseResult (parseUnary g' p') = eraseResult (parseUnary nanoid p)"
    proof (cases "check p T_NOT")
      case True
      then have c': "check p' T_NOT" using s by (simp add: sameInput_check)
      have "eraseResult
              (case parseUnary g' (advance p') of Inl e \<Rightarrow> Inl e
               | Inr (operand, p1) \<Rightarrow> Inr (createUnaryNode g' operand p1))
            = eraseResult
              (case parseUnary nanoid (advance p) of Inl e \<Rightarrow> Inl e
               | Inr (operand, p1) \<Rightarrow> Inr (createUnaryNode nanoid operand p1))"
      proof (rule sequence_step)
        show "eraseResult (parseUnary g' (advance p')) = eraseResult (parseUnary nanoid (advance p))"
          using 8(1) [OF True] sameInput_advance [OF s] by blast
      next
        fix a p1 a' p1'
        assume "eraseIds a' = eraseIds a" "sameInput p1 p1'"
        then show "eraseResult (Inr (createUnaryNode g' a' p1'))
                   = eraseResult (Inr (createUnaryNode nanoid a p1))"
          by (simp only: sameInput_createUnaryNode)
      qed
      then show ?thesis
        using True c'
        by (simp add: parseUnary.simps [of nanoid p] parseUnary.simps [of g' p'])
    next
      case False
      then have c': "\<not> check p' T_NOT" using s by (simp add: sameInput_check)
      have "eraseResult
              (case parsePrimary g' p' of Inl e \<Rightarrow> Inl e
               | Inr (node, p1) \<Rightarrow> Inr (postfixLoop g' node p1))
            = eraseResult
              (case parsePrimary nanoid p of Inl e \<Rightarrow> Inl e
               | Inr (node, p1) \<Rightarrow> Inr (postfixLoop nanoid node p1))"
      proof (rule sequence_step)
        show "eraseResult (parsePrimary g' p') = eraseResult (parsePrimary nanoid p)"
          using 8(2) [OF False] s by blast
      next
        fix a p1 a' p1'
        assume "eraseIds a' = eraseIds a" "sameInput p1 p1'"
        then show "eraseResult (Inr (postfixLoop g' a' p1'))
                   = eraseResult (Inr (postfixLoop nanoid a p1))"
          by (simp only: sameInput_postfixLoop)
      qed
      then show ?thesis
        using False c'
        by (simp add: parseUnary.simps [of nanoid p] parseUnary.simps [of g' p'])
    qed
  qed
next
  case (9 nanoid p)
  show ?case
  proof (intro allI impI)
    fix p' assume s: "sameInput p p'"
    note c = sameInput_check [OF s] and k = sameInput_peek [OF s]
    have a: "tokens (advance p') = tokens (advance p)" "pvariables (advance p') = pvariables (advance p)"
      using sameInput_advance [OF s] by (simp_all add: sameInput_def)
    show "eraseResult (parsePrimary g' p') = eraseResult (parsePrimary nanoid p)"
    proof (cases "check p T_LITERAL \<or> check p T_VARIABLE")
      case True
      then show ?thesis
        using c k a
        by (auto simp add: parsePrimary.simps [of nanoid p] parsePrimary.simps [of g' p'] Let_def)
    next
      case False
      show ?thesis
      proof (cases "check p T_LPAREN")
        case True
        have "eraseResult
                (case parseExpression g' (advance p') of Inl e \<Rightarrow> Inl e
                 | Inr (expr, p1) \<Rightarrow>
                     if check p1 T_RPAREN then Inr (expr, advance p1)
                     else (let token = peek p1 in
                           Inl (ParseError MissingClosingParenthesis (tok_position token) (tok_length token))))
              = eraseResult
                (case parseExpression nanoid (advance p) of Inl e \<Rightarrow> Inl e
                 | Inr (expr, p1) \<Rightarrow>
                     if check p1 T_RPAREN then Inr (expr, advance p1)
                     else (let token = peek p1 in
                           Inl (ParseError MissingClosingParenthesis (tok_position token) (tok_length token))))"
        proof (rule sequence_step)
          show "eraseResult (parseExpression g' (advance p')) = eraseResult (parseExpression nanoid (advance p))"
            using 9(1) [OF _ _ True] False sameInput_advance [OF s] by blast
        next
          fix e p1 e' p1'
          assume e: "eraseIds e' = eraseIds e" and s1: "sameInput p1 p1'"
          show "eraseResult (if check p1' T_RPAREN then Inr (e', advance p1')
                     else (let token = peek p1' in
                           Inl (ParseError MissingClosingParenthesis (tok_position token) (tok_length token))))
                = eraseResult (if check p1 T_RPAREN then Inr (e, advance p1)
                     else (let token = peek p1 in
                           Inl (ParseError MissingClosingParenthesis (tok_position token) (tok_length token))))"
            using e sameInput_check [OF s1] sameInput_peek [OF s1] sameInput_advance [OF s1]
            by (simp add: sameInput_def Let_def)
        qed
        then show ?thesis
          using True False c
          by (simp add: parsePrimary.simps [of nanoid p] parsePrimary.simps [of g' p'])
      next
        case nl: False
        then show ?thesis
          using False c k
          by (simp add: parsePrimary.simps [of nanoid p] parsePrimary.simps [of g' p'] Let_def)
      qed
    qed
  qed
qed

lemma sameInput_isAtEnd: "sameInput p p' \<Longrightarrow> isAtEnd p' = isAtEnd p"
  by (simp add: sameInput_def isAtEnd_def)

text \<open>
  C8, as amended: the engine's \<^verbatim>\<open>parse\<close> is deterministic up to the node identifiers: for
  any two sequences of strings that \<^verbatim>\<open>nanoid\<close> may return, the two results are the same
  error, or the same variables and the same tree once the ids are erased.  The client
  library's \<^verbatim>\<open>parse\<close> resets the static id counter, so that its result, ids included, does
  not depend on the value the counter had before.  (The lexers, the evaluator, the truth
  table generators and the simplifier are functions of their arguments here because the
  source gives them no state to read.)
\<close>

theorem parse_deterministic_up_to_ids:
  "map_sum id (map_prod eraseIds id) (parse nanoid expr)
     = map_sum id (map_prod eraseIds id) (parse nanoid' expr)
   \<and> jsParseString c input = jsParseString c' input"
proof
  show "jsParseString c input = jsParseString c' input"
    by (simp add: jsParseString_def jsParse_def split: sum.splits)
next
  show "map_sum id (map_prod eraseIds id) (parse nanoid expr)
     = map_sum id (map_prod eraseIds id) (parse nanoid' expr)"
  proof (cases "list_all isWhitespace expr")
    case True
    then show ?thesis by (simp add: parse_def)
  next
    case False
    show ?thesis
    proof (cases "tokenize expr")
      case (Inl e)
      with False show ?thesis by (simp add: parse_def)
    next
      case (Inr toks)
      let ?p = "\<lparr>tokens = toks, pvariables = [], ids = 0\<rparr>"
      have s: "sameInput ?p ?p" by (simp add: sameInput_def)
      have e: "eraseResult (parseExpression nanoid' ?p) = eraseResult (parseExpression nanoid ?p)"
        using parse_erase(1) [of ?p nanoid' nanoid] s by blast
      show ?thesis
      proof (cases "parseExpression nanoid ?p")
        case l: (Inl err)
        with e have "parseExpression nanoid' ?p = Inl err" by (rule eraseResult_eq_Inl)
        with l False Inr show ?thesis by (simp add: parse_def)
      next
        case r: (Inr x)
        obtain ast q where x: "x = (ast, q)" by (cases x)
        obtain ast' q' where
          r': "parseExpression nanoid' ?p = Inr (ast', q')" "eraseIds ast' = eraseIds ast"
            "sameInput q q'"
          by (rule eraseResult_eq_Inr [OF e r [unfolded x]])
        show ?thesis
          using False Inr r x r'(1,2) sameInput_isAtEnd [OF r'(3)] sameInput_peek [OF r'(3)] r'(3)
          by (simp add: parse_def Let_def sameInput_def)
      qed
    qed
  qed
qed

text \<open>
  With two different sequences of ids the engine returns trees with different
  identifiers for the same input \<^verbatim>\<open>A\<close>; and the static counter of the client library is
  state shared with whatever creates a node next: after parsing \<^verbatim>\<open>A\<close> the next node gets
  the id \<^verbatim>\<open>node_2\<close>, after parsing \<^verbatim>\<open>A B\<close> it gets \<^verbatim>\<open>node_4\<close>.
\<close>

theorem parse_ids_counterexample:
  "parse (\<lambda>k. [k]) (js ''A'') = Inr (ASTVariable (js ''A'') [0], [js ''A''])
   \<and> parse (\<lambda>k. [Suc k]) (js ''A'') = Inr (ASTVariable (js ''A'') [1], [js ''A''])
   \<and> parse (\<lambda>k. [k]) (js ''A'') \<noteq> parse (\<lambda>k. [Suc k]) (js ''A'')
   \<and> map_sum id (\<lambda>(ast, p). fst (generateId p)) (jsParseString 0 (js ''A'')) = Inr 2
   \<and> map_sum id (\<lambda>(ast, p). fst (generateId p)) (jsParseString 0 (js ''A B'')) = Inr 4"
  by (simp add: lexer_simps parser_simps setAdd_def jsParseString_def jlexer_simps jparser_simps
        numeral_2_eq_2 numeral_3_eq_3)

section \<open>Properties of the simplifier\<close>

text \<open>
  \<open>bitsOf n m\<close> are the \<open>n\<close> binary digits of \<open>m\<close>; a pattern matches a string of digits if
  it agrees with it wherever it has no dash.  An implicant is \<open>good\<close> for a set \<open>M\<close> of
  minterms if its pattern has length \<open>n\<close>, its minterms are exactly the numbers below
  \<open>2^n\<close> whose digits the pattern matches, and all of them are in \<open>M\<close>.
\<close>

definition bitsOf :: "nat \<Rightarrow> nat \<Rightarrow> jsstring" where
  "bitsOf n m = map (\<lambda>j. if bit m (n - 1 - j) then 49 else 48) [0..<n]"

lemma length_bitsOf [simp]: "length (bitsOf n m) = n"
  by (simp add: bitsOf_def)















































end
